theory Spec2Isabelle
  imports Complex_Main "HOL-Library.Word"
begin

section \<open>The float64 type of the language\<close>

text \<open>
  \<^verbatim>\<open>type Distance float64\<close>: every number of the package is an IEEE 754 binary64 value.
  A finite value is a sign, a significand \<open>m < 2^53\<close> and an exponent \<open>e\<close> with
  \<open>- 1074 \<le> e \<le> 971\<close>, standing for \<open>m * 2^e\<close>; the representation is the canonical one
  of the format (\<open>2^52 \<le> m\<close> unless \<open>e = - 1074\<close>, and a zero is written with the
  exponent 0), so that two finite values are the same float exactly when they are the
  same term. Both zeros, both infinities and NaN are values. Every arithmetic operation
  computes the exact result and rounds it once, to nearest and ties to even: the
  operations of a statement are not fused, as on the platforms where the compiler emits
  one instruction for each.
\<close>

datatype float64 = Finite bool nat int | Infinity bool | NaN

function bitlen64 :: "nat \<Rightarrow> nat" where
  "bitlen64 n = (if n = 0 then 0 else Suc (bitlen64 (n div 2)))"
  by pat_completeness auto
termination
  by (relation "measure id") auto

declare bitlen64.simps [simp del]

text \<open>The quotient \<open>n / d\<close> rounded to an integer, ties to even.\<close>

definition rhe_div :: "nat \<Rightarrow> nat \<Rightarrow> nat" where
  "rhe_div n d = (let q = n div d; r = n mod d in
     if 2 * r < d then q else if d < 2 * r then q + 1 else if even q then q else q + 1)"

text \<open>The integer part of the binary logarithm of \<open>n / d\<close>, for positive \<open>n\<close> and \<open>d\<close>.\<close>

definition ilog2 :: "nat \<Rightarrow> nat \<Rightarrow> int" where
  "ilog2 n d = (let e = int (bitlen64 n) - int (bitlen64 d) in
     if (if 0 \<le> e then d * 2 ^ nat e \<le> n else d \<le> n * 2 ^ nat (- e)) then e else e - 1)"

text \<open>
  The rational \<open>n / d\<close> (\<open>n\<close> and \<open>d\<close> positive) with sign \<open>s\<close>, rounded to binary64.
  The exponent \<open>quantum n d\<close> of the last place leaves 53 bits of significand and is
  at least \<open>- 1074\<close> (gradual underflow); \<open>significand n d p\<close> is \<open>n / d / 2^p\<close> rounded to
  an integer; \<open>normal\<close> carries a significand that rounded up to \<open>2^53\<close> into the next
  exponent and returns infinity beyond the largest exponent.
\<close>

definition quantum :: "nat \<Rightarrow> nat \<Rightarrow> int" where
  "quantum n d = max (ilog2 n d - 52) (- 1074)"

definition significand :: "nat \<Rightarrow> nat \<Rightarrow> int \<Rightarrow> nat" where
  "significand n d p = (if 0 \<le> p then rhe_div n (d * 2 ^ nat p) else rhe_div (n * 2 ^ nat (- p)) d)"

definition normal :: "bool \<Rightarrow> nat \<Rightarrow> int \<Rightarrow> float64" where
  "normal s m p =
    (let m' = (if m = 2 ^ 53 then 2 ^ 52 else m);
         p' = (if m = 2 ^ 53 then p + 1 else p)
     in if 971 < p' then Infinity s else if m' = 0 then Finite s 0 0 else Finite s m' p')"

definition round_ratio :: "bool \<Rightarrow> nat \<Rightarrow> nat \<Rightarrow> float64" where
  "round_ratio s n d =
    (if n = 0 then Finite s 0 0 else normal s (significand n d (quantum n d)) (quantum n d))"

text \<open>A constant of the source converted to float64: \<open>float64_lit n d\<close> is \<open>n / d\<close> rounded.\<close>

definition float64_lit :: "nat \<Rightarrow> nat \<Rightarrow> float64" where
  "float64_lit n d = round_ratio False n d"

definition fzero :: float64 where
  "fzero = Finite False 0 0"

text \<open>\<^verbatim>\<open>float64(i)\<close> for an int64 \<open>i\<close>.\<close>

definition float64_of_int64 :: "64 word \<Rightarrow> float64" where
  "float64_of_int64 i = round_ratio (sint i < 0) (nat \<bar>sint i\<bar>) 1"

text \<open>The signed significand of a finite value, scaled to the exponent \<open>k\<close> (\<open>k \<le> e\<close>).\<close>

definition scaled :: "int \<Rightarrow> bool \<Rightarrow> nat \<Rightarrow> int \<Rightarrow> int" where
  "scaled k s m e = (if s then - 1 else 1) * int m * 2 ^ nat (e - k)"

definition fneg :: "float64 \<Rightarrow> float64" where
  "fneg a = (case a of Finite s m e \<Rightarrow> Finite (\<not> s) m e | Infinity s \<Rightarrow> Infinity (\<not> s) | NaN \<Rightarrow> NaN)"

definition fmul :: "float64 \<Rightarrow> float64 \<Rightarrow> float64" where
  "fmul a b = (case a of
      NaN \<Rightarrow> NaN
    | Infinity s1 \<Rightarrow> (case b of
          NaN \<Rightarrow> NaN
        | Infinity s2 \<Rightarrow> Infinity (s1 \<noteq> s2)
        | Finite s2 m2 e2 \<Rightarrow> if m2 = 0 then NaN else Infinity (s1 \<noteq> s2))
    | Finite s1 m1 e1 \<Rightarrow> (case b of
          NaN \<Rightarrow> NaN
        | Infinity s2 \<Rightarrow> if m1 = 0 then NaN else Infinity (s1 \<noteq> s2)
        | Finite s2 m2 e2 \<Rightarrow>
            if 0 \<le> e1 + e2 then round_ratio (s1 \<noteq> s2) (m1 * m2 * 2 ^ nat (e1 + e2)) 1
            else round_ratio (s1 \<noteq> s2) (m1 * m2) (2 ^ nat (- (e1 + e2)))))"

definition fdiv :: "float64 \<Rightarrow> float64 \<Rightarrow> float64" where
  "fdiv a b = (case a of
      NaN \<Rightarrow> NaN
    | Infinity s1 \<Rightarrow> (case b of
          NaN \<Rightarrow> NaN
        | Infinity s2 \<Rightarrow> NaN
        | Finite s2 m2 e2 \<Rightarrow> Infinity (s1 \<noteq> s2))
    | Finite s1 m1 e1 \<Rightarrow> (case b of
          NaN \<Rightarrow> NaN
        | Infinity s2 \<Rightarrow> Finite (s1 \<noteq> s2) 0 0
        | Finite s2 m2 e2 \<Rightarrow>
            if m2 = 0 then (if m1 = 0 then NaN else Infinity (s1 \<noteq> s2))
            else if e2 \<le> e1 then round_ratio (s1 \<noteq> s2) (m1 * 2 ^ nat (e1 - e2)) m2
            else round_ratio (s1 \<noteq> s2) m1 (m2 * 2 ^ nat (e2 - e1))))"

definition fadd :: "float64 \<Rightarrow> float64 \<Rightarrow> float64" where
  "fadd a b = (case a of
      NaN \<Rightarrow> NaN
    | Infinity s1 \<Rightarrow> (case b of
          NaN \<Rightarrow> NaN
        | Infinity s2 \<Rightarrow> if s1 = s2 then Infinity s1 else NaN
        | Finite s2 m2 e2 \<Rightarrow> Infinity s1)
    | Finite s1 m1 e1 \<Rightarrow> (case b of
          NaN \<Rightarrow> NaN
        | Infinity s2 \<Rightarrow> Infinity s2
        | Finite s2 m2 e2 \<Rightarrow>
            (let k = min e1 e2; t = scaled k s1 m1 e1 + scaled k s2 m2 e2 in
             if t = 0 then Finite (s1 \<and> s2) 0 0
             else if 0 \<le> k then round_ratio (t < 0) (nat \<bar>t\<bar> * 2 ^ nat k) 1
             else round_ratio (t < 0) (nat \<bar>t\<bar>) (2 ^ nat (- k)))))"

text \<open>The comparisons \<^verbatim>\<open><\<close> and \<^verbatim>\<open>==\<close>: false whenever an operand is NaN; the two zeros are equal.\<close>

definition flt :: "float64 \<Rightarrow> float64 \<Rightarrow> bool" where
  "flt a b = (case a of
      NaN \<Rightarrow> False
    | Infinity s1 \<Rightarrow> (case b of
          NaN \<Rightarrow> False
        | Infinity s2 \<Rightarrow> s1 \<and> \<not> s2
        | Finite s2 m2 e2 \<Rightarrow> s1)
    | Finite s1 m1 e1 \<Rightarrow> (case b of
          NaN \<Rightarrow> False
        | Infinity s2 \<Rightarrow> \<not> s2
        | Finite s2 m2 e2 \<Rightarrow> scaled (min e1 e2) s1 m1 e1 < scaled (min e1 e2) s2 m2 e2))"

definition feq :: "float64 \<Rightarrow> float64 \<Rightarrow> bool" where
  "feq a b = (case a of
      NaN \<Rightarrow> False
    | Infinity s1 \<Rightarrow> (case b of
          NaN \<Rightarrow> False
        | Infinity s2 \<Rightarrow> s1 = s2
        | Finite s2 m2 e2 \<Rightarrow> False)
    | Finite s1 m1 e1 \<Rightarrow> (case b of
          NaN \<Rightarrow> False
        | Infinity s2 \<Rightarrow> False
        | Finite s2 m2 e2 \<Rightarrow> scaled (min e1 e2) s1 m1 e1 = scaled (min e1 e2) s2 m2 e2))"

definition fgt :: "float64 \<Rightarrow> float64 \<Rightarrow> bool" where
  "fgt a b = flt b a"

definition fge :: "float64 \<Rightarrow> float64 \<Rightarrow> bool" where
  "fge a b = (flt b a \<or> feq a b)"

section \<open>Unit constants\<close>

text \<open>
  The typed constants of the package. The compiler rounds an untyped constant to float64
  when it meets a typed operand and rounds each typed product once, so every line is one
  binary64 multiplication of two binary64 values.
\<close>

definition Nanometer :: float64 where
  "Nanometer = float64_lit 1 1"

definition Micrometer :: float64 where
  "Micrometer = fmul (float64_lit 1000 1) Nanometer"

definition Millimeter :: float64 where
  "Millimeter = fmul (float64_lit 1000 1) Micrometer"

definition Centimeter :: float64 where
  "Centimeter = fmul (float64_lit 10 1) Millimeter"

definition Meter :: float64 where
  "Meter = fmul (float64_lit 1000 1) Millimeter"

definition Kilometer :: float64 where
  "Kilometer = fmul (float64_lit 1000 1) Meter"

definition Inch :: float64 where
  "Inch = fmul (float64_lit 254 100) Centimeter"

definition Feet :: float64 where
  "Feet = fmul (float64_lit 3048 10) Millimeter"

definition Yard :: float64 where
  "Yard = fmul (float64_lit 3 1) Feet"

definition Mile :: float64 where
  "Mile = fmul (float64_lit 5280 1) Feet"

definition Lightyear :: float64 where
  "Lightyear = fmul (float64_lit 9461000000000 1) Kilometer"

section \<open>The formatter\<close>

text \<open>Strings are byte strings; \<open>byte c\<close> is the value of the byte \<open>c\<close>.\<close>

definition byte :: "char \<Rightarrow> nat" where
  "byte c = of_char c"

definition digit_char :: "nat \<Rightarrow> char" where
  "digit_char n = ''0123456789'' ! n"

function dec_digits :: "nat \<Rightarrow> string" where
  "dec_digits n = (if n < 10 then [digit_char n] else dec_digits (n div 10) @ [digit_char (n mod 10)])"
  by pat_completeness auto
termination
  by (relation "measure id") auto

declare dec_digits.simps [simp del]

definition frac_digits :: "nat \<Rightarrow> string" where
  "frac_digits k = map (\<lambda>i. digit_char (k div 10 ^ i mod 10)) [5, 4, 3, 2, 1, 0]"

text \<open>
  \<^verbatim>\<open>fmt.Sprintf("%f", x)\<close> of the standard library: the exact value of \<open>x\<close> rounded to six
  decimals, ties to even, written as sign, integer digits, a point and six digits; the
  infinities and NaN are written \<^verbatim>\<open>+Inf\<close>, \<^verbatim>\<open>-Inf\<close> and \<^verbatim>\<open>NaN\<close>.
\<close>

definition sprintf_f :: "float64 \<Rightarrow> string" where
  "sprintf_f x = (case x of
      NaN \<Rightarrow> ''NaN''
    | Infinity s \<Rightarrow> (if s then ''-Inf'' else ''+Inf'')
    | Finite s m e \<Rightarrow>
        (let n = (if 0 \<le> e then m * 10 ^ 6 * 2 ^ nat e else rhe_div (m * 10 ^ 6) (2 ^ nat (- e)))
         in (if s then ''-'' else []) @ dec_digits (n div 10 ^ 6) @ ''.'' @ frac_digits (n mod 10 ^ 6)))"

text \<open>The suffix of the micrometre branch is the micro sign U+00B5, in UTF-8 the bytes C2 B5.\<close>

definition micro_sign :: string where
  "micro_sign = [CHR 0xC2, CHR 0xB5]"

definition printMetric :: "float64 \<Rightarrow> string" where
  "printMetric d =
    (if fge d (fmul (float64_lit 1 1) Meter) then sprintf_f (fdiv d Meter) @ ''m''
     else if fge d (fmul (float64_lit 1 1) Centimeter) then sprintf_f (fdiv d Centimeter) @ ''cm''
     else if fge d (fmul (float64_lit 1 1) Millimeter) then sprintf_f (fdiv d Millimeter) @ ''mm''
     else if fge d (fmul (float64_lit 1 1) Micrometer) then sprintf_f (fdiv d Micrometer) @ micro_sign @ ''m''
     else if feq d fzero then ''0m''
     else sprintf_f (fdiv d Nanometer) @ ''nm'')"

definition printImperial :: "float64 \<Rightarrow> string" where
  "printImperial d =
    (if fge d (fmul (float64_lit 1 1) Yard) then sprintf_f (fdiv d Yard) @ ''yd''
     else if fge d (fmul (float64_lit 1 1) Feet) then sprintf_f (fdiv d Feet) @ ''ft''
     else if feq d fzero then ''0yd''
     else sprintf_f (fdiv d Inch) @ ''in'')"

text \<open>
  The package variable \<^verbatim>\<open>usingMetric\<close> (initially true) is the state of the formatter; the
  three setters return its new value, and \<open>String\<close> reads it.
\<close>

definition ToggleUnits :: "bool \<Rightarrow> bool" where
  "ToggleUnits usingMetric = (\<not> usingMetric)"

definition UseMetric :: "bool \<Rightarrow> bool" where
  "UseMetric usingMetric = True"

definition UseImperial :: "bool \<Rightarrow> bool" where
  "UseImperial usingMetric = False"

definition String :: "bool \<Rightarrow> float64 \<Rightarrow> string" where
  "String usingMetric d = (if usingMetric then printMetric d else printImperial d)"

section \<open>The parser\<close>

text \<open>
  Errors are the values of \<^verbatim>\<open>errors.New\<close>, a message each. \<open>Panic\<close> stands for the run-time
  panic of an index out of range.
\<close>

datatype error = ErrorString string | Panic

text \<open>
  The two non-ASCII keys of the table are U+00B5 (bytes C2 B5) and U+03BC (bytes CE BC),
  each followed by \<open>m\<close>.
\<close>

definition unitMap :: "string \<rightharpoonup> float64" where
  "unitMap = map_of
    [(''nm'', Nanometer),
     (''um'', Micrometer),
     ([CHR 0xC2, CHR 0xB5, CHR ''m''], Micrometer),
     ([CHR 0xCE, CHR 0xBC, CHR ''m''], Micrometer),
     (''mm'', Millimeter),
     (''cm'', Centimeter),
     (''m'', Meter),
     (''km'', Kilometer),
     (''in'', Inch),
     (''ft'', Feet),
     (''yd'', Yard),
     (''mi'', Mile),
     (''ly'', Lightyear)]"

definition errLeadingInt :: error where
  "errLeadingInt = ErrorString ''time: bad [0-9]*''"

definition is_digit :: "char \<Rightarrow> bool" where
  "is_digit c = (\<not> (byte c < byte CHR ''0'' \<or> byte CHR ''9'' < byte c))"

text \<open>
  \<^verbatim>\<open>leadingInt\<close>: the loop over the bytes of \<open>s\<close>, with the float64 \<open>x\<close> as accumulator. The
  bound \<^verbatim>\<open>(1<<63-1)/10\<close> is an integer constant, converted to float64 for the comparison.
\<close>

fun leadingInt_loop :: "float64 \<Rightarrow> string \<Rightarrow> error + float64 \<times> string" where
  "leadingInt_loop x [] = Inr (x, [])"
| "leadingInt_loop x (c # s) =
    (if \<not> is_digit c then Inr (x, c # s)
     else if fgt x (float64_lit ((2 ^ 63 - 1) div 10) 1) then Inl errLeadingInt
     else let x' = fadd (fmul x (float64_lit 10 1))
                     (float64_of_int64 (word_of_nat (byte c) - word_of_nat (byte CHR ''0'')))
          in if flt x' fzero then Inl errLeadingInt else leadingInt_loop x' s)"

definition leadingInt :: "string \<Rightarrow> error + float64 \<times> string" where
  "leadingInt s = leadingInt_loop fzero s"

text \<open>
  \<^verbatim>\<open>leadingFraction\<close>: \<open>x\<close> is an int64 (its arithmetic wraps), \<open>scale\<close> a float64, and
  \<open>overflow\<close> the flag of the loop.
\<close>

fun leadingFraction_loop :: "64 word \<Rightarrow> float64 \<Rightarrow> bool \<Rightarrow> string \<Rightarrow> 64 word \<times> float64 \<times> string" where
  "leadingFraction_loop x scale overflow [] = (x, scale, [])"
| "leadingFraction_loop x scale overflow (c # s) =
    (if \<not> is_digit c then (x, scale, c # s)
     else if overflow then leadingFraction_loop x scale overflow s
     else if word_of_int ((2 ^ 63 - 1) div 10) <s x then leadingFraction_loop x scale True s
     else let y = x * 10 + word_of_nat (byte c) - word_of_nat (byte CHR ''0'')
          in if y <s 0 then leadingFraction_loop x scale True s
             else leadingFraction_loop y (fmul scale (float64_lit 10 1)) overflow s)"

definition leadingFraction :: "string \<Rightarrow> 64 word \<times> float64 \<times> string" where
  "leadingFraction s = leadingFraction_loop 0 (float64_lit 1 1) False s"

definition invalid_distance :: "string \<Rightarrow> error" where
  "invalid_distance orig = ErrorString (''length: invalid distance '' @ orig)"

definition missing_unit :: "string \<Rightarrow> error" where
  "missing_unit orig = ErrorString (''length: missing unit in distance '' @ orig)"

definition unknown_unit :: "string \<Rightarrow> string \<Rightarrow> error" where
  "unknown_unit u orig = ErrorString (''length: unknown unit '' @ u @ '' in distance '' @ orig)"

definition is_number_byte :: "char \<Rightarrow> bool" where
  "is_number_byte c = (c = CHR ''.'' \<or> byte CHR ''0'' \<le> byte c \<and> byte c \<le> byte CHR ''9'')"

text \<open>
  One turn of the loop of \<^verbatim>\<open>ParseDistance\<close>, from the test of the first byte to the value
  \<open>v\<close> of the term: the result is the error returned, or \<open>v\<close> and the rest of the input.
  \<open>parse_fraction\<close> is the step \<^verbatim>\<open>(\.[0-9]*)?\<close> with its flag \<open>post\<close>, and \<open>term_value\<close> the
  arithmetic from the overflow test of \<open>v\<close> on.
\<close>

definition parse_fraction :: "string \<Rightarrow> 64 word \<times> float64 \<times> string \<times> bool" where
  "parse_fraction s =
    (case s of
       [] \<Rightarrow> (0, float64_lit 1 1, s, False)
     | c # s' \<Rightarrow>
         if c = CHR ''.'' then
           (case leadingFraction s' of (f, scale, s'') \<Rightarrow> (f, scale, s'', length s' \<noteq> length s''))
         else (0, float64_lit 1 1, s, False))"

definition term_value :: "string \<Rightarrow> float64 \<Rightarrow> 64 word \<Rightarrow> float64 \<Rightarrow> float64 \<Rightarrow> error + float64" where
  "term_value orig v f scale unit =
    (if fgt v (fdiv (float64_lit (2 ^ 63 - 1) 1) unit) then Inl (invalid_distance orig)
     else let v' = fmul v unit in
       if 0 <s f then
         (let v'' = fadd v' (fmul (float64_of_int64 f) (fdiv unit scale))
          in if flt v'' fzero then Inl (invalid_distance orig) else Inr v'')
       else Inr v')"

definition parse_term :: "string \<Rightarrow> string \<Rightarrow> error + float64 \<times> string" where
  "parse_term orig s =
    (case s of
       [] \<Rightarrow> Inl Panic
     | c # _ \<Rightarrow>
         if \<not> is_number_byte c then Inl (invalid_distance orig)
         else (case leadingInt s of
             Inl err \<Rightarrow> Inl (invalid_distance orig)
           | Inr (v, s1) \<Rightarrow>
               (case parse_fraction s1 of (f, scale, s2, post) \<Rightarrow>
                  if \<not> (length s \<noteq> length s1) \<and> \<not> post then Inl (invalid_distance orig)
                  else let u = takeWhile (\<lambda>c. \<not> is_number_byte c) s2;
                           s3 = dropWhile (\<lambda>c. \<not> is_number_byte c) s2
                       in if length u = 0 then Inl (missing_unit orig)
                          else (case unitMap u of
                              None \<Rightarrow> Inl (unknown_unit u orig)
                            | Some unit \<Rightarrow>
                                (case term_value orig v f scale unit of
                                   Inl err \<Rightarrow> Inl err
                                 | Inr v' \<Rightarrow> Inr (v', s3))))))"

lemma leadingInt_loop_length:
  "leadingInt_loop x s = Inr (v, r) \<Longrightarrow> length r \<le> length s"
proof (induction x s rule: leadingInt_loop.induct)
  case (1 x)
  then show ?case by simp
next
  case (2 x c s)
  then show ?case
    by (auto simp: Let_def split: if_splits)
qed

lemma leadingFraction_loop_length:
  "leadingFraction_loop x scale ov s = (f, scale', r) \<Longrightarrow> length r \<le> length s"
proof (induction x scale ov s rule: leadingFraction_loop.induct)
  case (1 x scale overflow)
  then show ?case by simp
next
  case (2 x scale overflow c s)
  then show ?case
    by (auto simp: Let_def split: if_splits)
qed

lemma parse_fraction_length:
  "parse_fraction s = (f, scale, r, post) \<Longrightarrow> length r \<le> length s"
  by (auto simp: parse_fraction_def leadingFraction_def split: list.splits if_splits prod.splits
      dest: leadingFraction_loop_length)

lemma parse_term_length:
  assumes "parse_term orig s = Inr (v, r)"
  shows "length r < length s"
proof -
  from assms obtain v0 s1 f scale s2 post where
    li: "leadingInt s = Inr (v0, s1)" and
    pf: "parse_fraction s1 = (f, scale, s2, post)" and
    u: "takeWhile (\<lambda>c. \<not> is_number_byte c) s2 \<noteq> []" and
    r: "r = dropWhile (\<lambda>c. \<not> is_number_byte c) s2"
    by (auto simp: parse_term_def Let_def split: list.splits if_splits sum.splits prod.splits option.splits)
  have "length s1 \<le> length s"
    using li leadingInt_loop_length by (simp add: leadingInt_def)
  moreover have "length s2 \<le> length s1"
    using pf by (rule parse_fraction_length)
  moreover have "length (takeWhile (\<lambda>c. \<not> is_number_byte c) s2) + length r = length s2"
    unfolding r by (metis length_append takeWhile_dropWhile_id)
  moreover have "0 < length (takeWhile (\<lambda>c. \<not> is_number_byte c) s2)"
    using u by simp
  ultimately show ?thesis by linarith
qed

text \<open>
  The loop \<^verbatim>\<open>for s != ""\<close> of \<^verbatim>\<open>ParseDistance\<close>, with the accumulator \<open>d\<close>: each turn parses
  one term, adds its value to \<open>d\<close> and tests the sum.
\<close>

function parse_loop :: "string \<Rightarrow> float64 \<Rightarrow> string \<Rightarrow> error + float64" where
  "parse_loop orig d s =
    (if s = [] then Inr d
     else (case parse_term orig s of
         Inl err \<Rightarrow> Inl err
       | Inr (v, s') \<Rightarrow>
           (let d' = fadd d v
            in if flt d' fzero then Inl (invalid_distance orig) else parse_loop orig d' s')))"
  by pat_completeness auto
termination
  by (relation "measure (\<lambda>(orig, d, s). length s)") (auto dest: parse_term_length)

declare parse_loop.simps [simp del]

text \<open>\<^verbatim>\<open>[-+]?\<close>: the sign consumed, and the rest of the input.\<close>

definition consume_sign :: "string \<Rightarrow> bool \<times> string" where
  "consume_sign s =
    (case s of
       [] \<Rightarrow> (False, s)
     | c # s' \<Rightarrow> if c = CHR ''-'' \<or> c = CHR ''+'' then (c = CHR ''-'', s') else (False, s))"

definition ParseDistance :: "string \<Rightarrow> error + float64" where
  "ParseDistance orig =
    (case consume_sign orig of (neg, s) \<Rightarrow>
       if s = ''0'' then Inr fzero
       else if s = [] then Inl (invalid_distance orig)
       else (case parse_loop orig fzero s of
           Inl err \<Rightarrow> Inl err
         | Inr d \<Rightarrow> Inr (if neg then fneg d else d)))"

section \<open>Predicates of the statements\<close>

text \<open>
  \<open>fnonneg x\<close>: \<open>x\<close> is not NaN and its sign bit is clear. \<open>fposfin x\<close>: \<open>x\<close> is finite,
  positive and not zero.
\<close>

definition fnonneg :: "float64 \<Rightarrow> bool" where
  "fnonneg x = (case x of Finite s m e \<Rightarrow> \<not> s | Infinity s \<Rightarrow> \<not> s | NaN \<Rightarrow> False)"

definition fposfin :: "float64 \<Rightarrow> bool" where
  "fposfin x = (case x of Finite s m e \<Rightarrow> \<not> s \<and> m \<noteq> 0 | _ \<Rightarrow> False)"

text \<open>
  An input has no unit suffix when nothing follows its optional sign, or when its last
  byte is a digit or a point.
\<close>

definition no_unit_suffix :: "string \<Rightarrow> bool" where
  "no_unit_suffix s = (case snd (consume_sign s) of [] \<Rightarrow> True | c # b \<Rightarrow> is_number_byte (last (c # b)))"

text \<open>
  \<open>unsigned s\<close>: \<open>s\<close> does not begin with a sign. \<open>is_term t v\<close>: the string \<open>t\<close> is one term (a
  number and its unit), that is, a turn of the loop of \<^verbatim>\<open>ParseDistance\<close> consumes all of \<open>t\<close>
  and computes the value \<open>v\<close>.
\<close>

definition unsigned :: "string \<Rightarrow> bool" where
  "unsigned s = (case s of [] \<Rightarrow> True | c # _ \<Rightarrow> c \<noteq> CHR ''-'' \<and> c \<noteq> CHR ''+'')"

definition is_term :: "string \<Rightarrow> float64 \<Rightarrow> bool" where
  "is_term t v = (parse_term t t = Inr (v, []))"

abbreviation not_number :: "char \<Rightarrow> bool" where
  "not_number \<equiv> (\<lambda>c. \<not> is_number_byte c)"

text \<open>The rational value of a finite float.\<close>

definition float_val :: "float64 \<Rightarrow> rat option" where
  "float_val x = (case x of
      Finite s m e \<Rightarrow> Some ((if s then - 1 else 1) * of_nat m * (if 0 \<le> e then 2 ^ nat e else 1 / 2 ^ nat (- e)))
    | Infinity s \<Rightarrow> None
    | NaN \<Rightarrow> None)"

text \<open>
  \<open>six_decimals str\<close>: \<open>str\<close> is an optional minus sign, one or more digits, a point and six
  digits. \<open>is_float64 x\<close>: the significand and the exponent of a finite \<open>x\<close> are in the ranges
  of binary64.
\<close>

definition six_decimals :: "string \<Rightarrow> bool" where
  "six_decimals str =
    (let t = (case str of [] \<Rightarrow> [] | c # r \<Rightarrow> if c = CHR ''-'' then r else str);
         ip = takeWhile is_digit t;
         rest = dropWhile is_digit t
     in ip \<noteq> [] \<and> (case rest of [] \<Rightarrow> False | c # fp \<Rightarrow> c = CHR ''.'' \<and> length fp = 6 \<and> list_all is_digit fp))"

definition is_float64 :: "float64 \<Rightarrow> bool" where
  "is_float64 x = (case x of Finite s m e \<Rightarrow> m < 2 ^ 53 \<and> - 1074 \<le> e \<and> e \<le> 971 | _ \<Rightarrow> True)"



section \<open>Evaluation\<close>

text \<open>
  The equations that evaluate the model on a concrete input. The recursive equations of
  \<open>bitlen64\<close> and \<open>parse_loop\<close> are used with the splitting of conditionals switched off.
\<close>

lemmas float_eval =
  bitlen64.simps rhe_div_def ilog2_def quantum_def significand_def normal_def round_ratio_def
  float64_lit_def Let_def
  fmul_def fdiv_def fadd_def fneg_def flt_def feq_def fge_def fgt_def scaled_def fzero_def
  float64_of_int64_def

lemma unit_values:
  "Nanometer = Finite False 4503599627370496 (- 52)"
  "Micrometer = Finite False 8796093022208000 (- 43)"
  "Millimeter = Finite False 8589934592000000 (- 33)"
  "Centimeter = Finite False 5368709120000000 (- 29)"
  "Meter = Finite False 8388608000000000 (- 23)"
  "Kilometer = Finite False 8192000000000000 (- 13)"
  "Inch = Finite False 6818260582400000 (- 28)"
  "Feet = Finite False 5113695436800000 (- 24)"
  "Yard = Finite False 7670543155200000 (- 23)"
  "Mile = Finite False 6591873024000000 (- 12)"
  "Lightyear = Finite False 8811242878437042 30"
  by (simp_all add: Nanometer_def Micrometer_def Millimeter_def Centimeter_def Meter_def
      Kilometer_def Inch_def Feet_def Yard_def Mile_def Lightyear_def float_eval
      split del: if_split)

lemmas parse_eval =
  ParseDistance_def consume_sign_def parse_loop.simps parse_term_def parse_fraction_def
  term_value_def leadingInt_def leadingFraction_def is_digit_def is_number_byte_def byte_def
  unitMap_def invalid_distance_def missing_unit_def unknown_unit_def errLeadingInt_def
  unit_values word_sless_alt

lemmas print_eval = sprintf_f_def dec_digits.simps frac_digits_def digit_char_def printMetric_def
  printImperial_def String_def micro_sign_def

section \<open>Signs of the arithmetic\<close>

lemma fnonneg_simps [simp]:
  "fnonneg (Finite s m e) = (\<not> s)"
  "fnonneg (Infinity s) = (\<not> s)"
  "fnonneg NaN = False"
  by (simp_all add: fnonneg_def)

lemma fnonneg_iff: "fnonneg x \<longleftrightarrow> (\<exists>m e. x = Finite False m e) \<or> x = Infinity False"
  by (cases x) (auto simp: fnonneg_def)

lemma fposfin_iff: "fposfin x \<longleftrightarrow> (\<exists>m e. x = Finite False m e \<and> m \<noteq> 0)"
  by (cases x) (auto simp: fposfin_def)

lemma round_ratio_cases:
  "round_ratio s n d = Infinity s \<or> (\<exists>m e. round_ratio s n d = Finite s m e)"
  by (simp add: round_ratio_def normal_def Let_def)

lemma fnonneg_round_ratio [simp]: "fnonneg (round_ratio False n d)"
  using round_ratio_cases [of False n d] by auto

lemma fnonneg_fzero [simp]: "fnonneg fzero"
  by (simp add: fzero_def)

lemma fnonneg_float64_lit [simp]: "fnonneg (float64_lit n d)"
  by (simp add: float64_lit_def)

lemma fnonneg_not_flt: "fnonneg x \<Longrightarrow> \<not> flt x fzero"
  by (auto simp: fnonneg_iff flt_def fzero_def scaled_def mult_less_0_iff)

lemma fnonneg_fadd:
  assumes "fnonneg a" "fnonneg b"
  shows "fnonneg (fadd a b)"
proof -
  have sum: "fnonneg (fadd (Finite False m1 e1) (Finite False m2 e2))" for m1 e1 m2 e2
  proof -
    define t where "t = scaled (min e1 e2) False m1 e1 + scaled (min e1 e2) False m2 e2"
    have "0 \<le> t"
      by (simp add: t_def scaled_def)
    then have "\<not> t < 0"
      by simp
    then have "fadd (Finite False m1 e1) (Finite False m2 e2) =
        (if t = 0 then Finite False 0 0
         else if 0 \<le> min e1 e2 then round_ratio False (nat \<bar>t\<bar> * 2 ^ nat (min e1 e2)) 1
         else round_ratio False (nat \<bar>t\<bar>) (2 ^ nat (- min e1 e2)))"
      by (simp add: fadd_def Let_def t_def [symmetric])
    then show ?thesis
      by simp
  qed
  from assms(1) consider m1 e1 where "a = Finite False m1 e1" | "a = Infinity False"
    by (auto simp: fnonneg_iff)
  then show ?thesis
  proof cases
    case 1
    from assms(2) consider m2 e2 where "b = Finite False m2 e2" | "b = Infinity False"
      by (auto simp: fnonneg_iff)
    then show ?thesis
      using 1 sum by cases (simp_all add: fadd_def)
  next
    case 2
    from assms(2) consider m2 e2 where "b = Finite False m2 e2" | "b = Infinity False"
      by (auto simp: fnonneg_iff)
    then show ?thesis
      using 2 by cases (simp_all add: fadd_def)
  qed
qed

lemma fnonneg_fmul:
  assumes "fnonneg a" "fposfin b"
  shows "fnonneg (fmul a b)"
proof -
  from assms(2) obtain m2 e2 where b: "b = Finite False m2 e2" "m2 \<noteq> 0"
    by (auto simp: fposfin_iff)
  from assms(1) consider m1 e1 where "a = Finite False m1 e1" | "a = Infinity False"
    by (auto simp: fnonneg_iff)
  then show ?thesis
    using b by cases (simp_all add: fmul_def)
qed

lemma fnonneg_fmul_left:
  assumes "fposfin a" "fnonneg b"
  shows "fnonneg (fmul a b)"
proof -
  from assms(1) obtain m1 e1 where a: "a = Finite False m1 e1" "m1 \<noteq> 0"
    by (auto simp: fposfin_iff)
  from assms(2) consider m2 e2 where "b = Finite False m2 e2" | "b = Infinity False"
    by (auto simp: fnonneg_iff)
  then show ?thesis
    using a by cases (simp_all add: fmul_def)
qed

lemma fnonneg_fdiv:
  assumes "fposfin a" "fnonneg b"
  shows "fnonneg (fdiv a b)"
proof -
  from assms(1) obtain m1 e1 where a: "a = Finite False m1 e1" "m1 \<noteq> 0"
    by (auto simp: fposfin_iff)
  from assms(2) consider m2 e2 where "b = Finite False m2 e2" | "b = Infinity False"
    by (auto simp: fnonneg_iff)
  then show ?thesis
    using a by cases (simp_all add: fdiv_def)
qed

section \<open>The shape of a parsed term\<close>

lemma leadingInt_loop_rest:
  "leadingInt_loop x s = Inr (v, r) \<Longrightarrow> r = dropWhile is_digit s"
proof (induction x s rule: leadingInt_loop.induct)
  case (1 x)
  then show ?case by simp
next
  case (2 x c s)
  then show ?case
    by (auto simp: Let_def split: if_splits)
qed

lemma leadingFraction_loop_rest:
  "snd (snd (leadingFraction_loop x scale ov s)) = dropWhile is_digit s"
  by (induction s arbitrary: x scale ov) (simp_all add: Let_def)

lemma parse_fraction_rest:
  assumes "parse_fraction s = (f, scale, r, post)"
  shows "\<exists>p. s = p @ r"
proof (cases s)
  case Nil
  with assms show ?thesis by (simp add: parse_fraction_def)
next
  case (Cons c s')
  show ?thesis
  proof (cases "c = CHR ''.''")
    case True
    with assms Cons obtain f' scale' where "leadingFraction_loop 0 (float64_lit 1 1) False s' = (f', scale', r)"
      by (auto simp: parse_fraction_def leadingFraction_def split: prod.splits)
    then have "r = dropWhile is_digit s'"
      using leadingFraction_loop_rest [of 0 "float64_lit 1 1" False s'] by simp
    then have "s = (c # takeWhile is_digit s') @ r"
      using Cons by simp
    then show ?thesis by blast
  next
    case False
    with assms Cons show ?thesis by (simp add: parse_fraction_def)
  qed
qed

lemma parse_term_split:
  assumes "parse_term orig s = Inr (v, r)"
  shows "\<exists>p u. s = p @ u @ r \<and> u \<noteq> [] \<and> (\<forall>c\<in>set u. \<not> is_number_byte c)"
proof -
  from assms obtain v0 s1 f scale s2 post where
    li: "leadingInt s = Inr (v0, s1)" and
    pf: "parse_fraction s1 = (f, scale, s2, post)" and
    u: "takeWhile (\<lambda>c. \<not> is_number_byte c) s2 \<noteq> []" and
    r: "r = dropWhile (\<lambda>c. \<not> is_number_byte c) s2"
    by (auto simp: parse_term_def Let_def split: list.splits if_splits sum.splits prod.splits option.splits)
  from li have "s1 = dropWhile is_digit s"
    unfolding leadingInt_def by (rule leadingInt_loop_rest)
  then have s: "s = takeWhile is_digit s @ s1"
    by simp
  from pf obtain p where s1: "s1 = p @ s2"
    using parse_fraction_rest by blast
  define w where "w = takeWhile (\<lambda>c. \<not> is_number_byte c) s2"
  have s2: "s2 = w @ r"
    unfolding w_def r by simp
  have "s = (takeWhile is_digit s @ p) @ w @ r"
    using s s1 s2 by simp
  moreover have "w \<noteq> []"
    using u by (simp add: w_def)
  moreover have "\<forall>c\<in>set w. \<not> is_number_byte c"
    unfolding w_def by (auto dest: set_takeWhileD)
  ultimately show ?thesis by blast
qed

lemma parse_loop_Nil: "parse_loop orig d [] = Inr d"
  by (subst parse_loop.simps) simp

lemma parse_loop_error:
  "s \<noteq> [] \<Longrightarrow> parse_term orig s = Inl err \<Longrightarrow> parse_loop orig d s = Inl err"
  by (subst parse_loop.simps) simp

lemma parse_loop_step:
  "s \<noteq> [] \<Longrightarrow> parse_term orig s = Inr (v, r) \<Longrightarrow>
   parse_loop orig d s =
     (if flt (fadd d v) fzero then Inl (invalid_distance orig) else parse_loop orig (fadd d v) r)"
  by (subst parse_loop.simps) (simp add: Let_def)

lemma parse_loop_no_unit:
  "s \<noteq> [] \<Longrightarrow> is_number_byte (last s) \<Longrightarrow> \<exists>err. parse_loop orig d s = Inl err"
proof (induction orig d s rule: parse_loop.induct)
  case (1 orig d s)
  show ?case
  proof (cases "parse_term orig s")
    case (Inl err)
    with 1(2) show ?thesis
      by (simp add: parse_loop_error)
  next
    case (Inr vr)
    obtain v r where vr: "vr = (v, r)"
      by (cases vr)
    from Inr vr have pt: "parse_term orig s = Inr (v, r)"
      by simp
    from parse_term_split [OF pt] obtain p u where
      s: "s = p @ u @ r" and u: "u \<noteq> []" "\<forall>c\<in>set u. \<not> is_number_byte c"
      by blast
    have r: "r \<noteq> []"
    proof
      assume "r = []"
      with s u(1) have "last s = last u" by simp
      moreover from u(1) have "last u \<in> set u" by simp
      ultimately show False
        using u(2) 1(3) by auto
    qed
    then have last: "last r = last s"
      using s by simp
    show ?thesis
    proof (cases "flt (fadd d v) fzero")
      case True
      with 1(2) pt show ?thesis
        by (simp add: parse_loop_step)
    next
      case False
      have "\<exists>err. parse_loop orig (fadd d v) r = Inl err"
        using 1(1) [OF 1(2) Inr vr [symmetric] refl False r] last 1(3) by simp
      with 1(2) pt False show ?thesis
        by (simp add: parse_loop_step)
    qed
  qed
qed

lemma consume_sign_zero:
  "snd (consume_sign s) = ''0'' \<longleftrightarrow> s \<in> {''0'', ''+0'', ''-0''}"
  by (auto simp: consume_sign_def split: list.splits)

section \<open>Integers converted to float64\<close>

lemma bitlen64_upper: "n < 2 ^ bitlen64 n"
proof (induction n rule: bitlen64.induct)
  case (1 n)
  show ?case
  proof (cases "n = 0")
    case True
    then show ?thesis by (simp add: bitlen64.simps)
  next
    case False
    then have "n div 2 < 2 ^ bitlen64 (n div 2)"
      using 1 by simp
    then have "n < 2 * 2 ^ bitlen64 (n div 2)"
      by linarith
    with False show ?thesis
      by (subst bitlen64.simps) simp
  qed
qed

lemma bitlen64_lower: "0 < n \<Longrightarrow> 2 ^ (bitlen64 n - 1) \<le> n"
proof (induction n rule: bitlen64.induct)
  case (1 n)
  show ?case
  proof (cases "n div 2 = 0")
    case True
    with 1(2) have "n = 1" by linarith
    then show ?thesis by (simp add: bitlen64.simps)
  next
    case False
    then have pos: "0 < n div 2" by simp
    then have ih: "2 ^ (bitlen64 (n div 2) - 1) \<le> n div 2"
      using 1 by simp
    have b: "0 < bitlen64 (n div 2)"
      using pos by (subst bitlen64.simps) simp
    have "bitlen64 n = Suc (bitlen64 (n div 2))"
      using 1(2) by (subst bitlen64.simps) simp
    then have "2 ^ (bitlen64 n - 1) = (2::nat) * 2 ^ (bitlen64 (n div 2) - 1)"
      using b by (cases "bitlen64 (n div 2)") simp_all
    also have "\<dots> \<le> 2 * (n div 2)"
      using ih by simp
    also have "\<dots> \<le> n"
      by simp
    finally show ?thesis .
  qed
qed

lemma bitlen64_le: "n < 2 ^ k \<Longrightarrow> bitlen64 n \<le> k"
proof (rule ccontr)
  assume n: "n < 2 ^ k" and "\<not> bitlen64 n \<le> k"
  then have k: "k \<le> bitlen64 n - 1" "0 < bitlen64 n"
    by simp_all
  then have "0 < n"
    by (subst (asm) (2) bitlen64.simps) (simp split: if_splits)
  then have "2 ^ (bitlen64 n - 1) \<le> n"
    by (rule bitlen64_lower)
  moreover have "(2::nat) ^ k \<le> 2 ^ (bitlen64 n - 1)"
    using k(1) by (simp add: power_increasing)
  ultimately have "2 ^ k \<le> n"
    by (rule order_trans [rotated])
  with n show False
    by simp
qed

lemma bitlen64_pos: "0 < n \<Longrightarrow> 0 < bitlen64 n"
  by (subst bitlen64.simps) simp

lemma rhe_div_ge: "n div d \<le> rhe_div n d"
  by (simp add: rhe_div_def Let_def)

lemma rhe_div_one [simp]: "rhe_div n 1 = n" "rhe_div n (Suc 0) = n"
  by (simp_all add: rhe_div_def)

lemma normal_fposfin: "0 < m \<Longrightarrow> p < 971 \<Longrightarrow> fposfin (normal False m p)"
  by (simp add: normal_def Let_def fposfin_def)

text \<open>An integer from 1 to \<open>2^63 - 1\<close> converts to a positive finite float.\<close>

lemma round_ratio_int_pos:
  assumes "0 < n" "n < 2 ^ 63"
  shows "fposfin (round_ratio False n 1)"
proof -
  define b where "b = bitlen64 n"
  have b: "0 < b" "b \<le> 63"
    using assms by (simp_all add: b_def bitlen64_pos bitlen64_le)
  have low: "2 ^ (b - 1) \<le> n"
    unfolding b_def using assms(1) by (rule bitlen64_lower)
  have one: "bitlen64 (Suc 0) = Suc 0"
    by (simp add: bitlen64.simps)
  have e: "ilog2 n 1 = int b - 1"
    using b low by (simp add: ilog2_def one b_def [symmetric] Let_def nat_diff_distrib' of_nat_diff)
  have q: "quantum n 1 = int b - 53"
    unfolding quantum_def e using b by simp
  have mpos: "0 < significand n 1 (int b - 53)"
  proof (cases "0 \<le> int b - 53")
    case True
    have "(2::nat) ^ nat (int b - 53) \<le> 2 ^ (b - 1)"
      by (rule power_increasing) (use True in auto)
    then have "2 ^ nat (int b - 53) \<le> n"
      using low by linarith
    then have "0 < n div 2 ^ nat (int b - 53)"
      by (simp add: div_greater_zero_iff)
    then show ?thesis
      using True rhe_div_ge [of n "2 ^ nat (int b - 53)"] by (simp add: significand_def)
  next
    case False
    then show ?thesis
      using assms(1) by (simp add: significand_def)
  qed
  have "int b - 53 < 971"
    using b by simp
  with mpos have "fposfin (normal False (significand n 1 (int b - 53)) (int b - 53))"
    by (rule normal_fposfin)
  then show ?thesis
    unfolding round_ratio_def q using assms(1) by simp
qed

lemma float64_of_int64_pos:
  assumes "0 <s f"
  shows "fposfin (float64_of_int64 f)"
proof -
  have pos: "0 < sint f"
    using assms by (simp add: word_sless_alt)
  have "sint f < 2 ^ 63"
    using sint_lt [of f] by simp
  then have "nat \<bar>sint f\<bar> < 2 ^ 63" "0 < nat \<bar>sint f\<bar>"
    using pos by (simp_all add: nat_less_iff)
  then have "fposfin (round_ratio False (nat \<bar>sint f\<bar>) 1)"
    using round_ratio_int_pos by blast
  with pos show ?thesis
    by (simp add: float64_of_int64_def)
qed


lemma digit_value:
  assumes "is_digit c"
  shows "\<not> sint (word_of_nat (byte c) - word_of_nat (byte CHR ''0'') :: 64 word) < 0"
proof -
  from assms have "48 \<le> byte c" "byte c \<le> 57"
    by (simp_all add: is_digit_def byte_def)
  then have k: "byte c = 48 + (byte c - 48)" "byte c - 48 < 10"
    by simp_all
  define k where "k = byte c - 48"
  note k = k [folded k_def]
  have "(word_of_nat (byte c) :: 64 word) = 48 + word_of_nat k"
    by (subst k(1)) simp
  moreover have "byte CHR ''0'' = 48"
    by (simp add: byte_def)
  ultimately have "(word_of_nat (byte c) - word_of_nat (byte CHR ''0'') :: 64 word) = word_of_nat k"
    by simp
  moreover have "sint (word_of_nat k :: 64 word) = int k"
    proof -
    have "int k < 2 ^ 63" "- (2 ^ 63) \<le> int k"
      using k(2) by simp_all
    then show ?thesis
      by (simp add: signed_of_nat signed_take_bit_int_eq_self)
  qed
  ultimately show ?thesis by simp
qed

section \<open>The values of the parser are not negative\<close>

lemma fposfin_ten: "fposfin (float64_lit 10 1)"
  by (simp add: float_eval fposfin_def split del: if_split)

lemma unitMap_fposfin: "unitMap u = Some unit \<Longrightarrow> fposfin unit"
  by (auto simp: unitMap_def unit_values fposfin_def split: if_splits)

lemma fnonneg_digit:
  "is_digit c \<Longrightarrow> fnonneg (float64_of_int64 (word_of_nat (byte c) - word_of_nat (byte CHR ''0'')))"
  using digit_value [of c] by (simp add: float64_of_int64_def)

lemma leadingInt_loop_nonneg:
  "fnonneg x \<Longrightarrow> leadingInt_loop x s = Inr (v, r) \<Longrightarrow> fnonneg v"
proof (induction s arbitrary: x)
  case Nil
  then show ?case by simp
next
  case (Cons c s)
  show ?case
  proof (cases "is_digit c")
    case False
    with Cons.prems show ?thesis by simp
  next
    case True
    define x' where "x' = fadd (fmul x (float64_lit 10 1))
      (float64_of_int64 (word_of_nat (byte c) - word_of_nat (byte CHR ''0'')))"
    have "fnonneg x'"
      unfolding x'_def using Cons.prems(1) True
      by (intro fnonneg_fadd fnonneg_fmul fposfin_ten fnonneg_digit)
    moreover have "leadingInt_loop x' s = Inr (v, r)"
      using Cons.prems(2) True by (simp add: x'_def Let_def split: if_splits)
    ultimately show ?thesis
      by (rule Cons.IH)
  qed
qed

lemma leadingFraction_loop_nonneg:
  "fnonneg scale \<Longrightarrow> fnonneg (fst (snd (leadingFraction_loop x scale ov s)))"
proof (induction s arbitrary: x scale ov)
  case Nil
  then show ?case by simp
next
  case (Cons c s)
  have "fnonneg (fmul scale (float64_lit 10 1))"
    using Cons.prems by (intro fnonneg_fmul fposfin_ten)
  then show ?case
    using Cons.prems by (simp add: Let_def Cons.IH)
qed

lemma leadingFraction_nonneg: "fnonneg (fst (snd (leadingFraction s)))"
  unfolding leadingFraction_def by (rule leadingFraction_loop_nonneg) simp

lemma parse_fraction_nonneg:
  assumes "parse_fraction s = (f, scale, r, post)"
  shows "fnonneg scale"
proof (cases s)
  case Nil
  with assms show ?thesis
    by (auto simp: parse_fraction_def)
next
  case (Cons c s')
  show ?thesis
  proof (cases "c = CHR ''.''")
    case True
    with assms Cons have "scale = fst (snd (leadingFraction s'))"
      by (auto simp: parse_fraction_def split: prod.splits)
    then show ?thesis
      by (simp add: leadingFraction_nonneg)
  next
    case False
    with assms Cons show ?thesis
      by (auto simp: parse_fraction_def)
  qed
qed

lemma term_value_nonneg:
  assumes "fnonneg v" "fnonneg scale" "fposfin unit" "term_value orig v f scale unit = Inr v'"
  shows "fnonneg v'"
proof (cases "0 <s f")
  case True
  have "fnonneg (fadd (fmul v unit) (fmul (float64_of_int64 f) (fdiv unit scale)))"
    using assms(1-3) True
    by (intro fnonneg_fadd fnonneg_fmul fnonneg_fmul_left fnonneg_fdiv float64_of_int64_pos)
  with assms(4) True show ?thesis
    by (auto simp: term_value_def Let_def split: if_splits)
next
  case False
  have "fnonneg (fmul v unit)"
    using assms(1,3) by (rule fnonneg_fmul)
  with assms(4) False show ?thesis
    by (auto simp: term_value_def Let_def split: if_splits)
qed

lemma parse_term_nonneg:
  assumes "parse_term orig s = Inr (v, r)"
  shows "fnonneg v"
proof -
  from assms obtain v0 s1 f scale s2 post u unit where
    li: "leadingInt s = Inr (v0, s1)" and
    pf: "parse_fraction s1 = (f, scale, s2, post)" and
    un: "unitMap u = Some unit" and
    tv: "term_value orig v0 f scale unit = Inr v"
    by (auto simp: parse_term_def Let_def split: list.splits if_splits sum.splits prod.splits option.splits)
  have "fnonneg v0"
    using li unfolding leadingInt_def by (rule leadingInt_loop_nonneg [rotated]) simp
  moreover have "fnonneg scale"
    using pf by (rule parse_fraction_nonneg)
  moreover have "fposfin unit"
    using un by (rule unitMap_fposfin)
  ultimately show ?thesis
    using tv by (rule term_value_nonneg)
qed

text \<open>The test of the sum never fails: a turn of the loop only adds the value of the term.\<close>

lemma parse_loop_add:
  assumes "fnonneg d" "s \<noteq> []" "parse_term orig s = Inr (v, r)"
  shows "parse_loop orig d s = parse_loop orig (fadd d v) r" "fnonneg (fadd d v)"
proof -
  show nn: "fnonneg (fadd d v)"
    using assms(1) parse_term_nonneg [OF assms(3)] by (rule fnonneg_fadd)
  then have "\<not> flt (fadd d v) fzero"
    by (rule fnonneg_not_flt)
  then show "parse_loop orig d s = parse_loop orig (fadd d v) r"
    using assms(2,3) by (simp add: parse_loop_step)
qed

lemma parse_loop_nonneg:
  "fnonneg d \<Longrightarrow> parse_loop orig d s = Inr d' \<Longrightarrow> fnonneg d'"
proof (induction orig d s rule: parse_loop.induct)
  case (1 orig d s)
  show ?case
  proof (cases "s = []")
    case True
    with 1(2,3) show ?thesis
      by (simp add: parse_loop_Nil)
  next
    case False
    show ?thesis
    proof (cases "parse_term orig s")
      case (Inl err)
      with False 1(3) show ?thesis
        by (simp add: parse_loop_error)
    next
      case (Inr vr)
      obtain v r where vr: "vr = (v, r)"
        by (cases vr)
      with Inr have pt: "parse_term orig s = Inr (v, r)"
        by simp
      note add = parse_loop_add [OF 1(2) False pt]
      have "\<not> flt (fadd d v) fzero"
        using add(2) by (rule fnonneg_not_flt)
      from 1(1) [OF False Inr vr [symmetric] refl this add(2)] 1(3) add(1)
      show ?thesis by simp
    qed
  qed
qed

section \<open>The original input only appears in errors\<close>

lemma parse_term_Inr_iff:
  "parse_term orig s = Inr (v, r) \<longleftrightarrow>
    (\<exists>v0 s1 f scale s2 post unit.
       s \<noteq> [] \<and> is_number_byte (hd s) \<and>
       leadingInt s = Inr (v0, s1) \<and>
       parse_fraction s1 = (f, scale, s2, post) \<and>
       (length s \<noteq> length s1 \<or> post) \<and>
       takeWhile not_number s2 \<noteq> [] \<and>
       unitMap (takeWhile not_number s2) = Some unit \<and>
       term_value orig v0 f scale unit = Inr v \<and>
       r = dropWhile not_number s2)"
  by (cases s)
     (auto simp: parse_term_def Let_def split: if_splits sum.splits prod.splits option.splits)

lemma term_value_orig:
  "term_value orig v f scale unit = Inr x \<Longrightarrow> term_value orig' v f scale unit = Inr x"
  by (auto simp: term_value_def Let_def split: if_splits)

lemma parse_term_orig:
  assumes "parse_term orig s = Inr x"
  shows "parse_term orig' s = Inr x"
proof -
  obtain v r where x: "x = (v, r)"
    by (cases x)
  from assms [unfolded x parse_term_Inr_iff] obtain v0 s1 f scale s2 post unit where
    h: "s \<noteq> []" "is_number_byte (hd s)" "leadingInt s = Inr (v0, s1)"
      "parse_fraction s1 = (f, scale, s2, post)" "length s \<noteq> length s1 \<or> post"
      "takeWhile not_number s2 \<noteq> []" "unitMap (takeWhile not_number s2) = Some unit"
      "term_value orig v0 f scale unit = Inr v" "r = dropWhile not_number s2"
    by blast
  from h(8) have "term_value orig' v0 f scale unit = Inr v"
    by (rule term_value_orig)
  with h show ?thesis
    unfolding x parse_term_Inr_iff by blast
qed

lemma parse_loop_orig:
  "parse_loop orig d s = Inr x \<Longrightarrow> parse_loop orig' d s = Inr x"
proof (induction orig d s rule: parse_loop.induct)
  case (1 orig d s)
  show ?case
  proof (cases "s = []")
    case True
    with 1(2) show ?thesis
      by (simp add: parse_loop_Nil)
  next
    case False
    show ?thesis
    proof (cases "parse_term orig s")
      case (Inl err)
      with False 1(2) show ?thesis
        by (simp add: parse_loop_error)
    next
      case (Inr vr)
      obtain v r where vr: "vr = (v, r)"
        by (cases vr)
      with Inr have pt: "parse_term orig s = Inr (v, r)"
        by simp
      then have pt': "parse_term orig' s = Inr (v, r)"
        by (rule parse_term_orig)
      from 1(2) False pt have nf: "\<not> flt (fadd d v) fzero"
        by (auto simp: parse_loop_step split: if_splits)
      with 1(2) False pt have "parse_loop orig (fadd d v) r = Inr x"
        by (simp add: parse_loop_step)
      with 1(1) [OF False Inr vr [symmetric] refl nf] have "parse_loop orig' (fadd d v) r = Inr x"
        by simp
      with False pt' nf show ?thesis
        by (simp add: parse_loop_step)
    qed
  qed
qed

lemma feq_refl: "x \<noteq> NaN \<Longrightarrow> feq x x"
  by (cases x) (simp_all add: feq_def)

lemma feq_zero_neg: "feq fzero (fneg fzero)"
  by (simp add: feq_def fneg_def fzero_def scaled_def)

lemma consume_sign_unsigned: "unsigned s \<Longrightarrow> consume_sign s = (False, s)"
  by (auto simp: unsigned_def consume_sign_def split: list.splits)

lemma consume_sign_minus: "consume_sign (CHR ''-'' # s) = (True, s)"
  by (simp add: consume_sign_def)

section \<open>A term followed by more input\<close>

lemma leadingInt_loop_append:
  "leadingInt_loop x s = Inr (v, r) \<Longrightarrow> r \<noteq> [] \<Longrightarrow> leadingInt_loop x (s @ t) = Inr (v, r @ t)"
proof (induction s arbitrary: x)
  case Nil
  then show ?case by simp
next
  case (Cons c s)
  then show ?case
    by (cases "is_digit c") (auto simp: Let_def split: if_splits)
qed

lemma leadingFraction_loop_append:
  "leadingFraction_loop x scale ov s = (f, scale', r) \<Longrightarrow> r \<noteq> [] \<Longrightarrow>
   leadingFraction_loop x scale ov (s @ t) = (f, scale', r @ t)"
proof (induction s arbitrary: x scale ov)
  case Nil
  then show ?case by simp
next
  case (Cons c s)
  show ?case
  proof (cases "is_digit c")
    case False
    with Cons.prems show ?thesis by auto
  next
    case True
    then have step: "leadingFraction_loop x scale ov ((c # s) @ t) =
        (if ov then leadingFraction_loop x scale ov (s @ t)
         else if word_of_int ((2 ^ 63 - 1) div 10) <s x then leadingFraction_loop x scale True (s @ t)
         else if x * 10 + word_of_nat (byte c) - word_of_nat (byte CHR ''0'') <s 0
           then leadingFraction_loop x scale True (s @ t)
           else leadingFraction_loop (x * 10 + word_of_nat (byte c) - word_of_nat (byte CHR ''0''))
                  (fmul scale (float64_lit 10 1)) ov (s @ t))"
      by (simp add: Let_def)
    from True have step0: "leadingFraction_loop x scale ov (c # s) =
        (if ov then leadingFraction_loop x scale ov s
         else if word_of_int ((2 ^ 63 - 1) div 10) <s x then leadingFraction_loop x scale True s
         else if x * 10 + word_of_nat (byte c) - word_of_nat (byte CHR ''0'') <s 0
           then leadingFraction_loop x scale True s
           else leadingFraction_loop (x * 10 + word_of_nat (byte c) - word_of_nat (byte CHR ''0''))
                  (fmul scale (float64_lit 10 1)) ov s)"
      by (simp add: Let_def)
    show ?thesis
      using Cons.prems unfolding step step0
      by (auto split: if_splits intro: Cons.IH)
  qed
qed

lemma parse_fraction_append:
  assumes "parse_fraction s = (f, scale, r, post)" "r \<noteq> []"
  shows "parse_fraction (s @ t) = (f, scale, r @ t, post)"
proof (cases s)
  case Nil
  with assms show ?thesis
    by (simp add: parse_fraction_def)
next
  case (Cons c s')
  show ?thesis
  proof (cases "c = CHR ''.''")
    case True
    obtain f' scale' r' where lf: "leadingFraction_loop 0 (float64_lit 1 1) False s' = (f', scale', r')"
      by (cases "leadingFraction_loop 0 (float64_lit 1 1) False s'")
    with assms Cons True have eq: "f' = f" "scale' = scale" "r' = r" "post = (length s' \<noteq> length r)"
      by (auto simp: parse_fraction_def leadingFraction_def)
    from lf assms(2) eq have "leadingFraction_loop 0 (float64_lit 1 1) False (s' @ t) = (f, scale, r @ t)"
      by (simp add: leadingFraction_loop_append)
    then show ?thesis
      using Cons True eq by (simp add: parse_fraction_def leadingFraction_def)
  next
    case False
    with assms Cons show ?thesis
      by (auto simp: parse_fraction_def)
  qed
qed

lemma parse_term_append:
  assumes "parse_term orig s = Inr (v, [])" "t = [] \<or> is_number_byte (hd t)"
  shows "parse_term orig' (s @ t) = Inr (v, t)"
proof -
  from assms(1) [unfolded parse_term_Inr_iff] obtain v0 s1 f scale s2 post unit where
    h: "s \<noteq> []" "is_number_byte (hd s)" "leadingInt s = Inr (v0, s1)"
      "parse_fraction s1 = (f, scale, s2, post)" "length s \<noteq> length s1 \<or> post"
      "takeWhile not_number s2 \<noteq> []" "unitMap (takeWhile not_number s2) = Some unit"
      "term_value orig v0 f scale unit = Inr v" "[] = dropWhile not_number s2"
    by blast
  from h(9) have all: "\<forall>c\<in>set s2. not_number c"
    by (metis dropWhile_eq_Nil_conv)
  from h(6) have s2: "s2 \<noteq> []"
    by auto
  from h(4) obtain p where "s1 = p @ s2"
    using parse_fraction_rest by blast
  with s2 have s1: "s1 \<noteq> []"
    by simp
  have tw: "takeWhile not_number (s2 @ t) = s2" and dw: "dropWhile not_number (s2 @ t) = t"
    using all assms(2) by (cases t; simp)+
  have tw0: "takeWhile not_number s2 = s2"
    using all by simp
  have li: "leadingInt (s @ t) = Inr (v0, s1 @ t)"
    using h(3) s1 unfolding leadingInt_def by (rule leadingInt_loop_append)
  have pf: "parse_fraction (s1 @ t) = (f, scale, s2 @ t, post)"
    using h(4) s2 by (rule parse_fraction_append)
  have tv: "term_value orig' v0 f scale unit = Inr v"
    using h(8) by (rule term_value_orig)
  have "s @ t \<noteq> []" "is_number_byte (hd (s @ t))" "length (s @ t) \<noteq> length (s1 @ t) \<or> post"
    using h(1,2,5) by simp_all
  with li pf tv h(7) s2 show ?thesis
    unfolding parse_term_Inr_iff tw0 by (auto simp: tw dw)
qed

lemma is_term_hd: "is_term t v \<Longrightarrow> t \<noteq> [] \<and> is_number_byte (hd t)"
  by (auto simp: is_term_def parse_term_Inr_iff)

lemma is_term_unit: "is_term t v \<Longrightarrow> \<exists>c\<in>set t. not_number c"
proof -
  assume "is_term t v"
  then obtain p u where "t = p @ u @ []" "u \<noteq> []" "\<forall>c\<in>set u. not_number c"
    unfolding is_term_def using parse_term_split by blast
  then show ?thesis
    by (cases u) auto
qed

lemma concat_terms_hd:
  assumes "list_all2 is_term ts vs"
  shows "concat ts = [] \<or> is_number_byte (hd (concat ts))"
proof (cases ts)
  case Nil
  then show ?thesis by simp
next
  case (Cons t ts')
  with assms obtain v where "is_term t v"
    by (auto simp: list_all2_Cons1)
  then have "t \<noteq> []" "is_number_byte (hd t)"
    using is_term_hd by blast+
  with Cons show ?thesis by simp
qed

lemma parse_loop_concat:
  "fnonneg d \<Longrightarrow> list_all2 is_term ts vs \<Longrightarrow> parse_loop orig d (concat ts) = Inr (foldl fadd d vs)"
proof (induction ts arbitrary: d vs)
  case Nil
  then show ?case
    by (simp add: parse_loop_Nil)
next
  case (Cons t ts)
  from Cons.prems(2) obtain v vs' where vs: "vs = v # vs'" and t: "is_term t v" and
    rest: "list_all2 is_term ts vs'"
    by (auto simp: list_all2_Cons1)
  have pt: "parse_term orig (t @ concat ts) = Inr (v, concat ts)"
    using t concat_terms_hd [OF rest] unfolding is_term_def by (rule parse_term_append)
  have ne: "t @ concat ts \<noteq> []"
    using is_term_hd [OF t] by simp
  note add = parse_loop_add [OF Cons.prems(1) ne pt]
  show ?case
    using add(1) Cons.IH [OF add(2) rest] by (simp add: vs)
qed

lemma number_byte_not_sign: "is_number_byte c \<Longrightarrow> c \<noteq> CHR ''-'' \<and> c \<noteq> CHR ''+''"
  by (auto simp: is_number_byte_def byte_def)

lemma ParseDistance_concat:
  assumes "ts \<noteq> []" "list_all2 is_term ts vs"
  shows "ParseDistance (concat ts) = Inr (foldl fadd fzero vs)"
proof -
  from assms obtain t ts' v where ts: "ts = t # ts'" and t: "is_term t v"
    by (cases ts) (auto simp: list_all2_Cons1)
  let ?s = "concat ts"
  have hd: "?s \<noteq> []" "is_number_byte (hd ?s)"
    using is_term_hd [OF t] by (simp_all add: ts)
  then have "unsigned ?s"
    using number_byte_not_sign [of "hd ?s"] by (cases ?s) (simp_all add: unsigned_def)
  then have cs: "consume_sign ?s = (False, ?s)"
    by (rule consume_sign_unsigned)
  obtain c where c: "c \<in> set ?s" "not_number c"
    using is_term_unit [OF t] by (auto simp: ts)
  have nz: "?s \<noteq> ''0''"
  proof
    assume "?s = ''0''"
    with c(1) have "c = CHR ''0''"
      by simp
    with c(2) show False
      by (simp add: is_number_byte_def byte_def)
  qed
  have "parse_loop ?s fzero ?s = Inr (foldl fadd fzero vs)"
    using assms(2) by (intro parse_loop_concat) simp_all
  with cs nz hd(1) show ?thesis
    by (simp add: ParseDistance_def)
qed


section \<open>A number followed by an unknown unit\<close>







section \<open>Negative distances and the thresholds\<close>

lemma negative_cases:
  assumes "flt d fzero"
  shows "(\<exists>m e. d = Finite True m e \<and> m \<noteq> 0) \<or> d = Infinity True"
proof (cases d)
  case (Finite s m e)
  with assms have "scaled (min e 0) s m e < 0"
    by (simp add: flt_def fzero_def scaled_def)
  then have "s \<and> m \<noteq> 0"
    by (cases s) (auto simp: scaled_def mult_less_0_iff zero_less_mult_iff)
  with Finite show ?thesis by simp
next
  case (Infinity s)
  with assms show ?thesis
    by (simp add: flt_def fzero_def)
next
  case NaN
  with assms show ?thesis
    by (simp add: flt_def)
qed

lemma negative_not_fge:
  assumes "flt d fzero" "fposfin u"
  shows "\<not> fge d u"
proof -
  from assms(2) obtain m2 e2 where u: "u = Finite False m2 e2" "m2 \<noteq> 0"
    by (auto simp: fposfin_iff)
  from negative_cases [OF assms(1)] show ?thesis
  proof (elim disjE exE conjE)
    fix m e
    assume d: "d = Finite True m e" "m \<noteq> 0"
    have "scaled k True m e < 0" "0 < scaled k False m2 e2" for k
      using d(2) u(2) by (simp_all add: scaled_def mult_less_0_iff zero_less_mult_iff)
    then have "scaled k True m e < scaled k False m2 e2" for k
      using order.strict_trans by blast
    then show ?thesis
      by (simp add: fge_def flt_def feq_def d u not_less order.strict_implies_order less_imp_neq)
  next
    assume "d = Infinity True"
    then show ?thesis
      by (simp add: fge_def flt_def feq_def u)
  qed
qed

lemma negative_not_zero:
  assumes "flt d fzero"
  shows "\<not> feq d fzero"
  using negative_cases [OF assms]
  by (auto simp: feq_def fzero_def scaled_def)

lemma thresholds_fposfin:
  "fposfin (fmul (float64_lit 1 1) Meter)"
  "fposfin (fmul (float64_lit 1 1) Centimeter)"
  "fposfin (fmul (float64_lit 1 1) Millimeter)"
  "fposfin (fmul (float64_lit 1 1) Micrometer)"
  "fposfin (fmul (float64_lit 1 1) Yard)"
  "fposfin (fmul (float64_lit 1 1) Feet)"
  by (simp_all add: unit_values float_eval fposfin_def split del: if_split)

section \<open>Terms with a fraction, and integers that overflow\<close>












section \<open>Comparisons by value\<close>

lemma float_val_Finite:
  "float_val (Finite s m e) = Some ((if s then - 1 else 1) * of_nat m * 2 powi e)"
  by (simp add: float_val_def power_int_def field_simps)

lemma float_val_scaled:
  assumes "k \<le> e"
  shows "float_val (Finite s m e) = Some (of_int (scaled k s m e) * 2 powi k)"
proof -
  have "(2::rat) powi e = 2 powi (e - k) * 2 powi k"
    by (simp flip: power_int_add)
  also have "(2::rat) powi (e - k) = of_int (2 ^ nat (e - k))"
    using assms by (simp add: power_int_def)
  finally show ?thesis
    by (simp add: float_val_Finite scaled_def)
qed

lemma float_val_compare:
  assumes "float_val a = Some x" "float_val b = Some y"
  shows "flt a b = (x < y)" "feq a b = (x = y)" "fge a b = (y \<le> x)"
proof -
  from assms obtain s1 m1 e1 s2 m2 e2 where a: "a = Finite s1 m1 e1" and b: "b = Finite s2 m2 e2"
    by (cases a; cases b) (simp_all add: float_val_def)
  define k where "k = min e1 e2"
  have x: "x = of_int (scaled k s1 m1 e1) * 2 powi k" and y: "y = of_int (scaled k s2 m2 e2) * 2 powi k"
    using assms float_val_scaled [of k e1 s1 m1] float_val_scaled [of k e2 s2 m2]
    by (simp_all add: a b k_def)
  have pos: "(0::rat) < 2 powi k"
    by simp
  show lt: "flt a b = (x < y)"
    using pos by (simp add: flt_def a b k_def [symmetric] x y)
  show eq: "feq a b = (x = y)"
    using pos by (simp add: feq_def a b k_def [symmetric] x y)
  have "flt b a = (y < x)"
    using pos by (simp add: flt_def a b k_def [symmetric] x y min.commute)
  with eq show "fge a b = (y \<le> x)"
    by (auto simp: fge_def)
qed

lemma thresholds_values:
  "float_val (fmul (float64_lit 1 1) Meter) = Some (10 ^ 9)"
  "float_val (fmul (float64_lit 1 1) Centimeter) = Some (10 ^ 7)"
  "float_val (fmul (float64_lit 1 1) Millimeter) = Some (10 ^ 6)"
  "float_val (fmul (float64_lit 1 1) Micrometer) = Some (10 ^ 3)"
  "float_val (fmul (float64_lit 1 1) Yard) = Some 914400000"
  "float_val (fmul (float64_lit 1 1) Feet) = Some 304800000"
  "float_val fzero = Some 0"
  by (simp_all add: float_val_def unit_values float_eval split del: if_split)

lemma printMetric_by_value:
  assumes "float_val d = Some x"
  shows "printMetric d =
    (if 10 ^ 9 \<le> x then sprintf_f (fdiv d Meter) @ ''m''
     else if 10 ^ 7 \<le> x then sprintf_f (fdiv d Centimeter) @ ''cm''
     else if 10 ^ 6 \<le> x then sprintf_f (fdiv d Millimeter) @ ''mm''
     else if 10 ^ 3 \<le> x then sprintf_f (fdiv d Micrometer) @ [CHR 0xC2, CHR 0xB5, CHR ''m'']
     else if x = 0 then ''0m''
     else sprintf_f (fdiv d Nanometer) @ ''nm'')"
  unfolding printMetric_def
  by (simp only: float_val_compare [OF assms thresholds_values(1)]
      float_val_compare [OF assms thresholds_values(2)]
      float_val_compare [OF assms thresholds_values(3)]
      float_val_compare [OF assms thresholds_values(4)]
      float_val_compare [OF assms thresholds_values(7)] micro_sign_def append.simps)

lemma digit_char_is_digit: "n < 10 \<Longrightarrow> is_digit (digit_char n)"
proof -
  assume "n < 10"
  then have "n \<in> {0, 1, 2, 3, 4, 5, 6, 7, 8, 9}"
    by auto
  then show ?thesis
    by (auto simp: digit_char_def is_digit_def byte_def)
qed

lemma dec_digits_digits: "dec_digits n \<noteq> [] \<and> list_all is_digit (dec_digits n)"
proof (induction n rule: dec_digits.induct)
  case (1 n)
  show ?case
  proof (cases "n < 10")
    case True
    then show ?thesis
      by (subst (1 2) dec_digits.simps) (simp add: digit_char_is_digit)
  next
    case False
    with 1 show ?thesis
      by (subst (1 2) dec_digits.simps) (simp add: digit_char_is_digit)
  qed
qed

lemma frac_digits_digits: "length (frac_digits k) = 6 \<and> list_all is_digit (frac_digits k)"
  by (simp add: frac_digits_def digit_char_is_digit)

lemma six_decimalsI:
  assumes "ip \<noteq> []" "list_all is_digit ip" "length fp = 6" "list_all is_digit fp"
  shows "six_decimals (ip @ ''.'' @ fp)" "six_decimals (''-'' @ ip @ ''.'' @ fp)"
proof -
  obtain c ip' where ip: "ip = c # ip'"
    using assms(1) by (cases ip) auto
  with assms(2) have c: "is_digit c"
    by simp
  then have "c \<noteq> CHR ''-''"
    by (auto simp: is_digit_def byte_def)
  moreover have "\<not> is_digit CHR ''.''"
    by (simp add: is_digit_def byte_def)
  then have "takeWhile is_digit (ip @ ''.'' @ fp) = ip" "dropWhile is_digit (ip @ ''.'' @ fp) = ''.'' @ fp"
    using assms(2) by (simp_all add: list_all_iff takeWhile_append2 dropWhile_append2)
  ultimately show "six_decimals (ip @ ''.'' @ fp)" "six_decimals (''-'' @ ip @ ''.'' @ fp)"
    using assms by (simp_all add: six_decimals_def Let_def ip)
qed

lemma sprintf_f_six_decimals: "six_decimals (sprintf_f (Finite s m e))"
  using six_decimalsI [OF conjunct1 [OF dec_digits_digits] conjunct2 [OF dec_digits_digits]
      conjunct1 [OF frac_digits_digits] conjunct2 [OF frac_digits_digits]]
  by (simp add: sprintf_f_def Let_def)

section \<open>Quotients that stay finite\<close>

lemma rhe_div_le:
  assumes "0 < d" "n \<le> k * d"
  shows "rhe_div n d \<le> k"
proof (cases "n div d < k")
  case True
  then show ?thesis
    by (simp add: rhe_div_def Let_def)
next
  case False
  have "n div d \<le> k"
    using assms by (metis div_le_mono nonzero_mult_div_cancel_right less_numeral_extra(3))
  with False have q: "n div d = k"
    by simp
  have "n = k * d + n mod d"
    using q by (metis div_mult_mod_eq)
  with assms(2) have "n mod d = 0"
    by simp
  with q assms(1) show ?thesis
    by (simp add: rhe_div_def Let_def)
qed

lemma of_nat_power2: "(of_nat (2 ^ k) :: rat) = 2 powi int k"
  by simp

lemma ilog2_lower:
  assumes "0 < n" "0 < d"
  shows "2 powi ilog2 n d \<le> (of_nat n / of_nat d :: rat)"
proof -
  define e0 where "e0 = int (bitlen64 n) - int (bitlen64 d)"
  define ok where "ok = (if 0 \<le> e0 then d * 2 ^ nat e0 \<le> n else d \<le> n * 2 ^ nat (- e0))"
  have L: "ilog2 n d = (if ok then e0 else e0 - 1)"
    by (simp add: ilog2_def Let_def e0_def ok_def)
  have dpos: "(0::rat) < of_nat d"
    using assms(2) by simp
  show ?thesis
  proof (cases ok)
    case True
    show ?thesis
    proof (cases "0 \<le> e0")
      case nonneg: True
      with True have "d * 2 ^ nat e0 \<le> n"
        by (simp add: ok_def)
      then have "(of_nat (d * 2 ^ nat e0) :: rat) \<le> of_nat n"
        by (rule of_nat_mono)
      then have "of_nat d * (2::rat) powi e0 \<le> of_nat n"
        using nonneg by (simp add: power_int_def)
      then show ?thesis
        using dpos True by (simp add: L pos_le_divide_eq mult.commute)
    next
      case neg: False
      with True have "d \<le> n * 2 ^ nat (- e0)"
        by (simp add: ok_def)
      then have "(of_nat d :: rat) \<le> of_nat (n * 2 ^ nat (- e0))"
        by (rule of_nat_mono)
      then have "(of_nat d :: rat) \<le> of_nat n * 2 powi (- e0)"
        using neg by (simp add: power_int_def)
      then have "(of_nat d :: rat) * 2 powi e0 \<le> of_nat n"
        by (simp add: power_int_minus field_simps)
      then show ?thesis
        using dpos True by (simp add: L pos_le_divide_eq mult.commute)
    qed
  next
    case False
    have "(2::nat) ^ (bitlen64 n - 1) \<le> n"
      using assms(1) by (rule bitlen64_lower)
    then have "(of_nat (2 ^ (bitlen64 n - 1)) :: rat) \<le> of_nat n"
      by (rule of_nat_mono)
    moreover have "0 < bitlen64 n"
      using assms(1) by (rule bitlen64_pos)
    then have "int (bitlen64 n) - 1 = int (bitlen64 n - 1)"
      by simp
    ultimately have low: "(2::rat) powi (int (bitlen64 n) - 1) \<le> of_nat n"
      by (simp only: power_int_of_nat of_nat_power of_nat_numeral)
    have "d < 2 ^ bitlen64 d"
      by (rule bitlen64_upper)
    then have "(of_nat d :: rat) < of_nat (2 ^ bitlen64 d)"
      by (rule of_nat_less_imp_less [OF _] | simp only: of_nat_less_iff)
    then have up: "(of_nat d :: rat) \<le> 2 powi int (bitlen64 d)"
      by simp
    have ex: "e0 - 1 + int (bitlen64 d) = int (bitlen64 n) - 1"
      by (simp add: e0_def)
    have "(2::rat) powi (e0 - 1) * of_nat d \<le> 2 powi (e0 - 1) * 2 powi int (bitlen64 d)"
      using up by (intro mult_left_mono) simp_all
    also have "\<dots> = 2 powi (e0 - 1 + int (bitlen64 d))"
      by (subst power_int_add) simp_all
    also have "\<dots> = 2 powi (int (bitlen64 n) - 1)"
      unfolding ex ..
    also have "\<dots> \<le> of_nat n"
      by (rule low)
    finally show ?thesis
      using dpos False by (simp add: L pos_le_divide_eq)
  qed
qed

lemma round_ratio_finite:
  assumes "0 < d" "(of_nat n / of_nat d :: rat) \<le> (2 ^ 53 - 1) * 2 ^ 971"
  shows "\<exists>m e. round_ratio s n d = Finite s m e"
proof (cases "n = 0")
  case True
  then show ?thesis
    by (simp add: round_ratio_def)
next
  case False
  then have npos: "0 < n"
    by simp
  have dpos: "(0::rat) < of_nat d"
    using assms(1) by simp
  have "2 powi ilog2 n d \<le> (of_nat n / of_nat d :: rat)"
    using npos assms(1) by (rule ilog2_lower)
  also have "\<dots> \<le> (2 ^ 53 - 1) * 2 ^ 971"
    by (rule assms(2))
  also have "\<dots> < (2::rat) powi 1024"
    by simp
  finally have lt: "(2::rat) powi ilog2 n d < 2 powi 1024" .
  have "ilog2 n d < 1024"
  proof (rule ccontr)
    assume "\<not> ilog2 n d < 1024"
    then have "(2::rat) powi 1024 \<le> 2 powi ilog2 n d"
      by (intro power_int_increasing) simp_all
    with lt show False
      by simp
  qed
  then have q: "quantum n d \<le> 971"
    by (simp add: quantum_def)
  show ?thesis
  proof (cases "quantum n d = 971")
    case True
    have "(of_nat n :: rat) \<le> (2 ^ 53 - 1) * 2 ^ 971 * of_nat d"
      using assms(2) dpos by (simp add: pos_divide_le_eq)
    also have "\<dots> = of_nat ((2 ^ 53 - 1) * (d * 2 ^ 971))"
      by simp
    finally have "n \<le> (2 ^ 53 - 1) * (d * 2 ^ 971)"
      by (simp only: of_nat_le_iff)
    then have "rhe_div n (d * 2 ^ 971) \<le> 2 ^ 53 - 1"
      using assms(1) by (intro rhe_div_le) simp_all
    then have "significand n d 971 \<noteq> 2 ^ 53"
      by (simp add: significand_def)
    then show ?thesis
      using False True by (simp add: round_ratio_def normal_def Let_def)
  next
    case False
    with q have "quantum n d < 971"
      by simp
    then show ?thesis
      using \<open>n \<noteq> 0\<close> by (simp add: round_ratio_def normal_def Let_def)
  qed
qed

lemma fdiv_finite:
  assumes "is_float64 d" "float_val d = Some x" "float_val u = Some y" "1 \<le> y"
  shows "\<exists>s m e. fdiv d u = Finite s m e"
proof -
  from assms(2,3) obtain s1 m1 e1 s2 m2 e2 where d: "d = Finite s1 m1 e1" and u: "u = Finite s2 m2 e2"
    by (cases d; cases u) (simp_all add: float_val_def)
  from assms(1) d have wf: "m1 < 2 ^ 53" "e1 \<le> 971"
    by (simp_all add: is_float64_def)
  from assms(3,4) u have y: "1 \<le> (if s2 then - 1 else 1) * of_nat m2 * (2::rat) powi e2"
    by (simp add: float_val_Finite)
  then have m2: "m2 \<noteq> 0"
    by (cases "m2 = 0") simp_all
  from y have s2: "\<not> s2"
  proof (cases s2)
    case True
    have "0 \<le> of_nat m2 * (2::rat) powi e2"
      by simp
    with y True show ?thesis
      by simp
  qed simp
  with y have y1: "1 \<le> of_nat m2 * (2::rat) powi e2"
    by simp
  have m1: "(of_nat m1 :: rat) \<le> 2 ^ 53 - 1"
  proof -
    have "m1 \<le> 2 ^ 53 - 1"
      using wf(1) by simp
    then have "(of_nat m1 :: rat) \<le> of_nat (2 ^ 53 - 1)"
      by (rule of_nat_mono)
    then show ?thesis
      by simp
  qed
  have e1: "(2::rat) powi e1 \<le> 2 ^ 971"
  proof -
    have "(2::rat) powi e1 \<le> 2 powi 971"
      using wf(2) by (intro power_int_increasing) simp_all
    then show ?thesis
      by simp
  qed
  have num: "of_nat m1 * (2::rat) powi e1 \<le> (2 ^ 53 - 1) * 2 ^ 971"
    using m1 e1 by (intro mult_mono) simp_all
  have quot: "of_nat m1 * (2::rat) powi e1 / (of_nat m2 * 2 powi e2) \<le> (2 ^ 53 - 1) * 2 ^ 971"
  proof -
    have "of_nat m1 * (2::rat) powi e1 / (of_nat m2 * 2 powi e2) \<le> of_nat m1 * 2 powi e1 / 1"
      using y1 by (intro divide_left_mono) simp_all
    with num show ?thesis
      by simp
  qed
  show ?thesis
  proof (cases "e2 \<le> e1")
    case True
    have "(2::rat) ^ nat (e1 - e2) = 2 powi (e1 - e2)"
      using True by (simp add: power_int_def)
    also have "\<dots> = 2 powi e1 / 2 powi e2"
      by (simp add: power_int_diff)
    finally have "(of_nat (m1 * 2 ^ nat (e1 - e2)) / of_nat m2 :: rat) =
        of_nat m1 * 2 powi e1 / (of_nat m2 * 2 powi e2)"
      by simp
    with quot have "(of_nat (m1 * 2 ^ nat (e1 - e2)) / of_nat m2 :: rat) \<le> (2 ^ 53 - 1) * 2 ^ 971"
      by simp
    then have "\<exists>m e. round_ratio (s1 \<noteq> s2) (m1 * 2 ^ nat (e1 - e2)) m2 = Finite (s1 \<noteq> s2) m e"
      using m2 by (intro round_ratio_finite) simp_all
    then show ?thesis
      using True m2 by (auto simp: fdiv_def d u)
  next
    case False
    have "(2::rat) ^ nat (e2 - e1) = 2 powi (e2 - e1)"
      using False by (simp add: power_int_def)
    also have "\<dots> = 2 powi e2 / 2 powi e1"
      by (simp add: power_int_diff)
    finally have "(of_nat m1 / of_nat (m2 * 2 ^ nat (e2 - e1)) :: rat) =
        of_nat m1 * 2 powi e1 / (of_nat m2 * 2 powi e2)"
      by simp
    with quot have "(of_nat m1 / of_nat (m2 * 2 ^ nat (e2 - e1)) :: rat) \<le> (2 ^ 53 - 1) * 2 ^ 971"
      by simp
    then have "\<exists>m e. round_ratio (s1 \<noteq> s2) m1 (m2 * 2 ^ nat (e2 - e1)) = Finite (s1 \<noteq> s2) m e"
      using m2 by (intro round_ratio_finite) simp_all
    then show ?thesis
      using False m2 by (auto simp: fdiv_def d u)
  qed
qed

lemma metric_units_values:
  "float_val Meter = Some (10 ^ 9)"
  "float_val Centimeter = Some (10 ^ 7)"
  "float_val Millimeter = Some (10 ^ 6)"
  "float_val Micrometer = Some (10 ^ 3)"
  "float_val Nanometer = Some 1"
  by (simp_all add: float_val_def unit_values)

lemma metric_number_six_decimals:
  assumes "is_float64 d" "float_val d = Some x"
    "u \<in> {Meter, Centimeter, Millimeter, Micrometer, Nanometer}"
  shows "six_decimals (sprintf_f (fdiv d u))"
proof -
  from assms(3) obtain y where "float_val u = Some y" "1 \<le> y"
    using metric_units_values by auto
  with assms(1,2) obtain s m e where "fdiv d u = Finite s m e"
    using fdiv_finite by blast
  then show ?thesis
    by (simp add: sprintf_f_six_decimals)
qed

section \<open>Bounds on rounded values\<close>















section \<open>Bounds on the arithmetic\<close>















section \<open>The values of the parser are bounded\<close>















section \<open>Light-year terms\<close>

text \<open>
  \<^bold>\<open>C1\<close>. The input \<^verbatim>\<open>"-1.5ly"\<close>, the example of the doc comment of \<^verbatim>\<open>ParseDistance\<close>, is
  not parsed: the integer part 1 is greater than \<^verbatim>\<open>(1<<63-1)/unit\<close> for the unit of the
  light-year (about \<open>9.7e-7\<close>), so the overflow test of the term returns the error
  \<^verbatim>\<open>length: invalid distance -1.5ly\<close>.
\<close>

theorem ParseDistance_lightyear_rejected:
  "ParseDistance ''-1.5ly'' = Inl (ErrorString ''length: invalid distance -1.5ly'')"
  by (simp add: parse_eval float_eval split del: if_split)

section \<open>Inputs without a unit\<close>

text \<open>
  \<^bold>\<open>C2\<close> does not hold for a zero with a sign: the sign is consumed before the test
  \<^verbatim>\<open>s == "0"\<close>, so \<^verbatim>\<open>"+0"\<close> and \<^verbatim>\<open>"-0"\<close> are accepted and give zero, like \<^verbatim>\<open>"0"\<close>.
\<close>

theorem ParseDistance_signed_zero_accepted:
  "ParseDistance ''+0'' = Inr fzero \<and> ParseDistance ''-0'' = Inr fzero"
  by (simp add: ParseDistance_def consume_sign_def)

text \<open>
  \<^bold>\<open>C2\<close>, with the signed zeros. Among the inputs without a unit suffix, the three
  inputs \<^verbatim>\<open>"0"\<close>, \<^verbatim>\<open>"+0"\<close> and \<^verbatim>\<open>"-0"\<close> (a zero after the optional sign) return zero, and
  every other one returns an error.
\<close>

theorem ParseDistance_no_unit:
  assumes "no_unit_suffix s"
  shows "if s \<in> {''0'', ''+0'', ''-0''} then ParseDistance s = Inr fzero
         else \<exists>err. ParseDistance s = Inl err"
proof -
  obtain neg b where cs: "consume_sign s = (neg, b)"
    by (cases "consume_sign s")
  show ?thesis
  proof (cases "b = ''0''")
    case True
    then show ?thesis
      using cs consume_sign_zero [of s] by (simp add: ParseDistance_def)
  next
    case False
    then have notin: "s \<notin> {''0'', ''+0'', ''-0''}"
      using cs consume_sign_zero [of s] by simp
    show ?thesis
    proof (cases "b = []")
      case True
      with cs False notin show ?thesis
        by (simp add: ParseDistance_def)
    next
      case nonempty: False
      with assms cs have "is_number_byte (last b)"
        by (simp add: no_unit_suffix_def split: list.splits)
      with nonempty obtain err where "parse_loop s fzero b = Inl err"
        using parse_loop_no_unit by blast
      with cs False nonempty notin show ?thesis
        by (simp add: ParseDistance_def)
    qed
  qed
qed

theorem ParseDistance_no_unit_witness:
  "no_unit_suffix ''12'' \<and> (\<exists>err. ParseDistance ''12'' = Inl err)"
proof -
  have h: "no_unit_suffix ''12''"
    by (simp add: no_unit_suffix_def consume_sign_def is_number_byte_def byte_def)
  show ?thesis
    using h ParseDistance_no_unit [OF h] by simp
qed

section \<open>Overflow of the running total\<close>



section \<open>Compound inputs\<close>

text \<open>
  \<^bold>\<open>C4\<close>. \<^verbatim>\<open>"5ft11in"\<close> parses to \<open>5 * Feet + 11 * Inch\<close>, computed in float64. In general,
  the concatenation of terms parses to the sum of their values, added from left to right
  to the accumulator, which starts from zero.
\<close>

theorem ParseDistance_sum:
  "ParseDistance ''5ft11in'' = Inr (fadd (fmul (float64_lit 5 1) Feet) (fmul (float64_lit 11 1) Inch))
   \<and> (\<forall>ts vs. ts \<noteq> [] \<and> list_all2 is_term ts vs \<longrightarrow>
         ParseDistance (concat ts) = Inr (foldl fadd fzero vs))"
proof (intro conjI allI impI)
  show "ParseDistance ''5ft11in'' = Inr (fadd (fmul (float64_lit 5 1) Feet) (fmul (float64_lit 11 1) Inch))"
    by (simp add: parse_eval float_eval split del: if_split)
next
  fix ts vs
  assume "ts \<noteq> [] \<and> list_all2 is_term ts vs"
  then show "ParseDistance (concat ts) = Inr (foldl fadd fzero vs)"
    using ParseDistance_concat by blast
qed

theorem ParseDistance_sum_witness:
  "[''5ft'', ''11in''] \<noteq> []
   \<and> list_all2 is_term [''5ft'', ''11in''] [fmul (float64_lit 5 1) Feet, fmul (float64_lit 11 1) Inch]
   \<and> ParseDistance (concat [''5ft'', ''11in'']) =
       Inr (foldl fadd fzero [fmul (float64_lit 5 1) Feet, fmul (float64_lit 11 1) Inch])"
proof -
  have h: "[''5ft'', ''11in''] \<noteq> []
      \<and> list_all2 is_term [''5ft'', ''11in''] [fmul (float64_lit 5 1) Feet, fmul (float64_lit 11 1) Inch]"
    by (simp add: is_term_def parse_eval float_eval split del: if_split)
  show ?thesis
    using h ParseDistance_sum by blast
qed

section \<open>The sign\<close>

text \<open>
  \<^bold>\<open>C5\<close> does not hold for a body that begins with a sign of its own: the parser consumes
  one sign only, so \<^verbatim>\<open>"+1m"\<close> parses, and \<^verbatim>\<open>"-+1m"\<close> is rejected at the second sign.
\<close>

theorem ParseDistance_second_sign_rejected:
  "ParseDistance ''+1m'' = Inr Meter
   \<and> ParseDistance ''-+1m'' = Inl (ErrorString ''length: invalid distance -+1m'')"
  by (simp add: parse_eval float_eval split del: if_split)

text \<open>
  \<^bold>\<open>C5\<close>, for the bodies without a sign of their own. If such a \<open>body\<close> parses to \<open>d\<close>,
  then \<open>body\<close> after a minus sign parses to a value equal to \<open>- d\<close>: the sign is applied
  once, to the sum. The value is the float \<open>- d\<close> itself, except for the body \<^verbatim>\<open>"0"\<close>, where
  the special case returns the zero that \<^verbatim>\<open>==\<close> does not tell from \<open>- 0\<close>.
\<close>

theorem ParseDistance_minus:
  assumes "unsigned body" "ParseDistance body = Inr d"
  shows "\<exists>d'. ParseDistance (CHR ''-'' # body) = Inr d' \<and> feq d' (fneg d) \<and>
           (body \<noteq> ''0'' \<longrightarrow> d' = fneg d)"
proof (cases "body = ''0''")
  case True
  with assms(2) have "d = fzero"
    by (simp add: ParseDistance_def consume_sign_def)
  moreover have "ParseDistance (CHR ''-'' # body) = Inr fzero"
    using True by (simp add: ParseDistance_def consume_sign_def)
  ultimately show ?thesis
    using True feq_zero_neg by simp
next
  case False
  from assms False have ne: "body \<noteq> []" and pl: "parse_loop body fzero body = Inr d"
    by (auto simp: ParseDistance_def consume_sign_unsigned split: if_splits sum.splits)
  from pl have "parse_loop (CHR ''-'' # body) fzero body = Inr d"
    by (rule parse_loop_orig)
  then have res: "ParseDistance (CHR ''-'' # body) = Inr (fneg d)"
    using False ne by (simp add: ParseDistance_def consume_sign_minus)
  have "fnonneg d"
    using pl by (rule parse_loop_nonneg [rotated]) simp
  then have "fneg d \<noteq> NaN"
    by (cases d) (simp_all add: fneg_def)
  then have "feq (fneg d) (fneg d)"
    by (rule feq_refl)
  with res show ?thesis
    by simp
qed

theorem ParseDistance_minus_witness:
  "unsigned ''1ft1in''
   \<and> ParseDistance ''1ft1in'' = Inr (fadd (fmul (float64_lit 1 1) Feet) (fmul (float64_lit 1 1) Inch))
   \<and> ParseDistance ''-1ft1in'' =
       Inr (fneg (fadd (fmul (float64_lit 1 1) Feet) (fmul (float64_lit 1 1) Inch)))
   \<and> ParseDistance ''-1ft1in'' \<noteq>
       Inr (fadd (fmul (fneg (float64_lit 1 1)) Feet) (fmul (float64_lit 1 1) Inch))"
proof -
  have h1: "unsigned ''1ft1in''"
    by (simp add: unsigned_def)
  have h2: "ParseDistance ''1ft1in'' =
      Inr (fadd (fmul (float64_lit 1 1) Feet) (fmul (float64_lit 1 1) Inch))"
    by (simp add: parse_eval float_eval split del: if_split)
  have ne: "fneg (fadd (fmul (float64_lit 1 1) Feet) (fmul (float64_lit 1 1) Inch)) \<noteq>
      fadd (fmul (fneg (float64_lit 1 1)) Feet) (fmul (float64_lit 1 1) Inch)"
    by (simp add: unit_values float_eval split del: if_split)
  show ?thesis
    using h1 h2 ne ParseDistance_minus [OF h1 h2] by auto
qed

section \<open>Digits of the fraction and of the integer part\<close>



section \<open>The metric format\<close>

text \<open>
  \<^bold>\<open>C7\<close>. In metric mode a finite distance of \<open>x\<close> nanometres is printed in metres from
  \<open>10^9\<close> on, else in centimetres from \<open>10^7\<close> on, else in millimetres from \<open>10^6\<close> on, else in
  micrometres (suffix: the micro sign, bytes C2 B5, and \<open>m\<close>) from \<open>10^3\<close> on, else as
  \<^verbatim>\<open>0m\<close> when it is zero, else in nanometres. The number printed is the quotient by the
  unit, and for a float64 distance its text is an optional sign, digits, a point and six
  digits. Two kilometres print as \<^verbatim>\<open>2000.000000m\<close>.
\<close>

theorem metric_format:
  "(\<forall>d x. float_val d = Some x \<longrightarrow>
      String True d =
        (if 10 ^ 9 \<le> x then sprintf_f (fdiv d Meter) @ ''m''
         else if 10 ^ 7 \<le> x then sprintf_f (fdiv d Centimeter) @ ''cm''
         else if 10 ^ 6 \<le> x then sprintf_f (fdiv d Millimeter) @ ''mm''
         else if 10 ^ 3 \<le> x then sprintf_f (fdiv d Micrometer) @ [CHR 0xC2, CHR 0xB5, CHR ''m'']
         else if x = 0 then ''0m''
         else sprintf_f (fdiv d Nanometer) @ ''nm''))
   \<and> (\<forall>d x u. is_float64 d \<and> float_val d = Some x \<and>
          u \<in> {Meter, Centimeter, Millimeter, Micrometer, Nanometer} \<longrightarrow>
          six_decimals (sprintf_f (fdiv d u)))
   \<and> String True (fmul (float64_lit 2 1) Kilometer) = ''2000.000000m''
   \<and> String True fzero = ''0m''
   \<and> String True (fmul (float64_lit 2 1) Micrometer) = ''2.000000'' @ [CHR 0xC2, CHR 0xB5] @ ''m''"
proof (intro conjI allI impI)
  fix d x
  assume "float_val d = Some x"
  then show "String True d =
        (if 10 ^ 9 \<le> x then sprintf_f (fdiv d Meter) @ ''m''
         else if 10 ^ 7 \<le> x then sprintf_f (fdiv d Centimeter) @ ''cm''
         else if 10 ^ 6 \<le> x then sprintf_f (fdiv d Millimeter) @ ''mm''
         else if 10 ^ 3 \<le> x then sprintf_f (fdiv d Micrometer) @ [CHR 0xC2, CHR 0xB5, CHR ''m'']
         else if x = 0 then ''0m''
         else sprintf_f (fdiv d Nanometer) @ ''nm'')"
    by (simp only: String_def if_True printMetric_by_value)
next
  fix d x u
  assume "is_float64 d \<and> float_val d = Some x \<and>
          u \<in> {Meter, Centimeter, Millimeter, Micrometer, Nanometer}"
  then show "six_decimals (sprintf_f (fdiv d u))"
    using metric_number_six_decimals by blast
next
  show "String True (fmul (float64_lit 2 1) Kilometer) = ''2000.000000m''"
    by (simp add: print_eval unit_values float_eval split del: if_split)
  show "String True fzero = ''0m''"
    by (simp add: print_eval unit_values float_eval split del: if_split)
  show "String True (fmul (float64_lit 2 1) Micrometer) = ''2.000000'' @ [CHR 0xC2, CHR 0xB5] @ ''m''"
    by (simp add: print_eval unit_values float_eval split del: if_split)
qed

theorem metric_format_witness:
  "float_val (fmul (float64_lit 25 10) Centimeter) = Some 25000000
   \<and> is_float64 (fmul (float64_lit 25 10) Centimeter)
   \<and> String True (fmul (float64_lit 25 10) Centimeter) =
       sprintf_f (fdiv (fmul (float64_lit 25 10) Centimeter) Centimeter) @ ''cm''
   \<and> six_decimals (sprintf_f (fdiv (fmul (float64_lit 25 10) Centimeter) Centimeter))
   \<and> String True (fmul (float64_lit 25 10) Centimeter) = ''2.500000cm''"
proof -
  have h1: "float_val (fmul (float64_lit 25 10) Centimeter) = Some 25000000"
    by (simp add: float_val_def unit_values float_eval split del: if_split)
  have h2: "is_float64 (fmul (float64_lit 25 10) Centimeter)"
    by (simp add: is_float64_def unit_values float_eval split del: if_split)
  have h3: "Centimeter \<in> {Meter, Centimeter, Millimeter, Micrometer, Nanometer}"
    by simp
  have a: "String True (fmul (float64_lit 25 10) Centimeter) =
      sprintf_f (fdiv (fmul (float64_lit 25 10) Centimeter) Centimeter) @ ''cm''"
    using conjunct1 [OF metric_format, rule_format, OF h1] by simp
  have b: "six_decimals (sprintf_f (fdiv (fmul (float64_lit 25 10) Centimeter) Centimeter))"
    using metric_format h1 h2 h3 by blast
  have c: "sprintf_f (fdiv (fmul (float64_lit 25 10) Centimeter) Centimeter) = ''2.500000''"
    by (simp add: print_eval unit_values float_eval split del: if_split)
  show ?thesis
    using h1 h2 a b c by simp
qed

section \<open>The values of the constants\<close>

text \<open>
  \<^bold>\<open>C8\<close>. Each constant is the product of its factor and the constant it is derived from.
  Up to the mile the products are exact, so the constants have the rational values of the
  table. \<open>Lightyear\<close> is the float64 product of \<open>9.461e12\<close> and \<open>Kilometer\<close>, which is the
  float64 nearest to \<open>9.461e24\<close> (that number is not a float64), and its quotient by
  \<open>Kilometer\<close> in float64 is \<open>9.461e12\<close> again.
\<close>

theorem unit_constants:
  "float_val Nanometer = Some 1
   \<and> float_val Micrometer = Some (10 ^ 3 * 1)
   \<and> float_val Millimeter = Some (10 ^ 3 * 10 ^ 3)
   \<and> float_val Centimeter = Some (10 * 10 ^ 6)
   \<and> float_val Meter = Some (10 ^ 3 * 10 ^ 6)
   \<and> float_val Kilometer = Some (10 ^ 3 * 10 ^ 9)
   \<and> float_val Inch = Some (254 / 100 * 10 ^ 7)
   \<and> float_val Feet = Some (3048 / 10 * 10 ^ 6)
   \<and> float_val Yard = Some (3 * 304800000)
   \<and> float_val Mile = Some (5280 * 304800000)
   \<and> Lightyear = fmul (float64_lit 9461000000000 1) Kilometer
   \<and> Lightyear = float64_lit (9461000000000 * 10 ^ 12) 1
   \<and> float_val Lightyear = Some 9460999999999999746244608
   \<and> fdiv Lightyear Kilometer = float64_lit 9461000000000 1
   \<and> float_val (float64_lit 9461000000000 1) = Some 9461000000000"
  by (simp add: float_val_def unit_values float_eval split del: if_split)

section \<open>The unit suffixes\<close>



section \<open>Negative distances\<close>

text \<open>
  \<^bold>\<open>C10\<close>. A distance less than zero is below every threshold and is not zero, so in
  metric mode it is printed in nanometres and in imperial mode in inches, whatever its
  magnitude.
\<close>

theorem negative_distance_format:
  assumes "flt d fzero"
  shows "String True d = sprintf_f (fdiv d Nanometer) @ ''nm''
       \<and> String False d = sprintf_f (fdiv d Inch) @ ''in''"
  using negative_not_fge [OF assms thresholds_fposfin(1)]
    negative_not_fge [OF assms thresholds_fposfin(2)]
    negative_not_fge [OF assms thresholds_fposfin(3)]
    negative_not_fge [OF assms thresholds_fposfin(4)]
    negative_not_fge [OF assms thresholds_fposfin(5)]
    negative_not_fge [OF assms thresholds_fposfin(6)]
    negative_not_zero [OF assms]
  by (simp add: String_def printMetric_def printImperial_def)

theorem negative_distance_format_witness:
  "flt (fneg (fmul (float64_lit 2 1) Kilometer)) fzero
   \<and> String True (fneg (fmul (float64_lit 2 1) Kilometer)) = ''-2000000000000.000000nm''
   \<and> String False (fneg (fmul (float64_lit 2 1) Kilometer)) = ''-78740.157480in''"
proof -
  have h: "flt (fneg (fmul (float64_lit 2 1) Kilometer)) fzero"
    by (simp add: unit_values float_eval split del: if_split)
  have "sprintf_f (fdiv (fneg (fmul (float64_lit 2 1) Kilometer)) Nanometer) = ''-2000000000000.000000''"
    "sprintf_f (fdiv (fneg (fmul (float64_lit 2 1) Kilometer)) Inch) = ''-78740.157480''"
    by (simp_all add: print_eval unit_values float_eval split del: if_split)
  then show ?thesis
    using h negative_distance_format [OF h] by simp
qed

end
